theory Spec2Isabelle
  imports Main
begin

section \<open>Python strings\<close>

text \<open>
  A Python \<^verbatim>\<open>str\<close> is modelled as a \<^typ>\<open>string\<close>: a list of characters whose code
  points lie in \<open>0..255\<close>.  The functions of this section are the \<^verbatim>\<open>str\<close> methods that
  \<^verbatim>\<open>cocrawler/urls.py\<close> calls, with Python's results.
\<close>

datatype error =
    IndexError                \<comment> \<open>\<^verbatim>\<open>path[0]\<close> on the empty string, \<^verbatim>\<open>pop\<close> on an empty list\<close>
  | InvalidPath string        \<comment> \<open>\<^verbatim>\<open>ValueError('Invalid path, must start with /: ' + path)\<close>\<close>
  | InvalidURL                \<comment> \<open>the \<^verbatim>\<open>ValueError\<close> of \<^verbatim>\<open>urllib.parse.urlsplit\<close>\<close>
  | BadEscape string          \<comment> \<open>the \<^verbatim>\<open>ValueError\<close> of \<^verbatim>\<open>chr(int(quote, base=16))\<close>\<close>
  | External string           \<comment> \<open>an exception raised by code outside \<^verbatim>\<open>urls.py\<close>\<close>

text \<open>\<^verbatim>\<open>s.split(c)\<close> for a separator of one character: never the empty list.\<close>

fun split_chr :: "char \<Rightarrow> string \<Rightarrow> string list" where
  "split_chr c [] = [[]]"
| "split_chr c (x # xs) =
     (if x = c then [] # split_chr c xs
      else (case split_chr c xs of [] \<Rightarrow> [[x]] | p # ps \<Rightarrow> (x # p) # ps))"

text \<open>\<^verbatim>\<open>c.join(xs)\<close>.\<close>

fun join_chr :: "char \<Rightarrow> string list \<Rightarrow> string" where
  "join_chr c [] = []"
| "join_chr c [x] = x"
| "join_chr c (x # y # ys) = x @ c # join_chr c (y # ys)"

definition startswith :: "string \<Rightarrow> string \<Rightarrow> bool" where
  "startswith s p = (take (length p) s = p)"

definition endswith :: "string \<Rightarrow> string \<Rightarrow> bool" where
  "endswith s p = (length p \<le> length s \<and> drop (length s - length p) s = p)"

definition lstrip :: "(char \<Rightarrow> bool) \<Rightarrow> string \<Rightarrow> string" where
  "lstrip P s = dropWhile P s"

definition rstrip :: "(char \<Rightarrow> bool) \<Rightarrow> string \<Rightarrow> string" where
  "rstrip P s = rev (dropWhile P (rev s))"

definition strip :: "(char \<Rightarrow> bool) \<Rightarrow> string \<Rightarrow> string" where
  "strip P s = rstrip P (lstrip P s)"

text \<open>\<^verbatim>\<open>s.replace(old, new, 1)\<close>: the leftmost occurrence only.\<close>

fun replace_first :: "string \<Rightarrow> string \<Rightarrow> string \<Rightarrow> string" where
  "replace_first old new [] = (if old = [] then new else [])"
| "replace_first old new (c # cs) =
     (if take (length old) (c # cs) = old then new @ drop (length old) (c # cs)
      else c # replace_first old new cs)"

text \<open>\<^verbatim>\<open>s.find(sub)\<close>; \<open>None\<close> stands for Python's \<open>-1\<close>.\<close>

fun find_sub :: "string \<Rightarrow> string \<Rightarrow> nat option" where
  "find_sub sub [] = (if sub = [] then Some 0 else None)"
| "find_sub sub (c # cs) =
     (if take (length sub) (c # cs) = sub then Some 0
      else map_option Suc (find_sub sub cs))"

text \<open>
  \<^verbatim>\<open>str.lower\<close> and \<^verbatim>\<open>str.upper\<close>.  The source applies them to scheme names, to
  members of \<open>valid_hex\<close> and to strings it compares with \<^verbatim>\<open>'http://'\<close> and
  \<^verbatim>\<open>'https://'\<close>; there only the letters A-Z and a-z matter, and only those are mapped.
\<close>

definition lower_chr :: "char \<Rightarrow> char" where
  "lower_chr c =
     (case map_of (zip ''ABCDEFGHIJKLMNOPQRSTUVWXYZ'' ''abcdefghijklmnopqrstuvwxyz'') c of
        Some d \<Rightarrow> d | None \<Rightarrow> c)"

definition upper_chr :: "char \<Rightarrow> char" where
  "upper_chr c =
     (case map_of (zip ''abcdefghijklmnopqrstuvwxyz'' ''ABCDEFGHIJKLMNOPQRSTUVWXYZ'') c of
        Some d \<Rightarrow> d | None \<Rightarrow> c)"

definition lower :: "string \<Rightarrow> string" where
  "lower s = map lower_chr s"

definition upper :: "string \<Rightarrow> string" where
  "upper s = map upper_chr s"


text \<open>
  \<^verbatim>\<open>int(s, base=16)\<close> on a string of hexadecimal digits, and \<^verbatim>\<open>chr\<close>.  Python's
  \<^verbatim>\<open>int\<close> also accepts a sign, blanks, underscores and a \<^verbatim>\<open>0x\<close> prefix; the source
  calls it on members of a safe-set only, which are pairs of hexadecimal digits, and the
  model makes every other string an error.  \<^verbatim>\<open>chr\<close> of a code point above 255 leaves
  the string model and is an error here as well.
\<close>

definition hexval :: "char \<Rightarrow> nat option" where
  "hexval c =
     (if c \<in> set ''0123456789'' then Some (of_char c - 48)
      else if c \<in> set ''abcdef'' then Some (of_char c - 87)
      else if c \<in> set ''ABCDEF'' then Some (of_char c - 55)
      else None)"

fun int16_acc :: "nat \<Rightarrow> string \<Rightarrow> nat option" where
  "int16_acc a [] = Some a"
| "int16_acc a (c # cs) =
     (case hexval c of None \<Rightarrow> None | Some d \<Rightarrow> int16_acc (16 * a + d) cs)"

definition py_int16 :: "string \<Rightarrow> nat option" where
  "py_int16 s = (if s = [] then None else int16_acc 0 s)"

definition py_chr :: "nat \<Rightarrow> char option" where
  "py_chr n = (if n < 256 then Some (char_of n) else None)"

section \<open>Char-class tables\<close>

text \<open>\<^verbatim>\<open>'%02x' % i\<close> and \<^verbatim>\<open>'%02X' % i\<close> for \<open>i\<close> in \<^verbatim>\<open>range(256)\<close>.\<close>

definition hex_lower :: string where
  "hex_lower = ''0123456789abcdef''"

definition hex_upper :: string where
  "hex_upper = ''0123456789ABCDEF''"

definition fmt_02x :: "nat \<Rightarrow> string" where
  "fmt_02x i = [hex_lower ! (i div 16), hex_lower ! (i mod 16)]"

definition fmt_02X :: "nat \<Rightarrow> string" where
  "fmt_02X i = [hex_upper ! (i div 16), hex_upper ! (i mod 16)]"

definition valid_hex :: "string set" where
  "valid_hex = set (map fmt_02x [0..<256]) \<union> set (map fmt_02X [0..<256])"

definition unreserved :: "string set" where
  "unreserved =
     set (map fmt_02X [0x41..<0x5b]) \<union> set (map fmt_02X [0x61..<0x7b])
       \<union> set (map fmt_02X [0x30..<0x3a]) \<union> {''2D'', ''2E'', ''5F'', ''7E''}"

definition subdelims :: "string set" where
  "subdelims = {''21'', ''24'', ''3B'', ''3D''} \<union> set (map fmt_02X [0x26..<0x2d])"

definition unquote_in_path :: "string set" where
  "unquote_in_path = subdelims \<union> {''3A'', ''40''}"

definition unquote_in_query :: "string set" where
  "unquote_in_query = ((subdelims \<union> {''3A'', ''2F'', ''3F'', ''40''}) - {''26''}) - {''3D''}"

definition unquote_in_frag :: "string set" where
  "unquote_in_frag = unquote_in_query"

section \<open>Percent-decode engine\<close>

text \<open>
  The loop of \<^verbatim>\<open>unquote\<close> over the pieces after the first, with the text built so far.
\<close>

fun unquote_loop :: "string set \<Rightarrow> string list \<Rightarrow> string \<Rightarrow> error + string" where
  "unquote_loop safe [] text = Inr text"
| "unquote_loop safe (p # ps) text =
     (if endswith text ''%'' then unquote_loop safe ps (text @ ''%'' @ p)
      else
        let quote = take 2 p;
            rest = drop 2 p;
            quote = (if quote \<in> valid_hex then upper quote else quote)
        in if quote \<in> safe then
             (case py_int16 quote of
                None \<Rightarrow> Inl (BadEscape quote)
              | Some n \<Rightarrow>
                  (case py_chr n of
                     None \<Rightarrow> Inl (BadEscape quote)
                   | Some ch \<Rightarrow> unquote_loop safe ps (text @ ch # rest)))
           else unquote_loop safe ps (text @ ''%'' @ quote @ rest))"

definition unquote :: "string \<Rightarrow> string set \<Rightarrow> error + string" where
  "unquote text safe =
     (case split_chr CHR ''%'' text of
        [] \<Rightarrow> Inl IndexError
      | p0 # pieces \<Rightarrow> unquote_loop safe pieces p0)"


section \<open>Path normalizer\<close>

text \<open>One pass of the loop body of \<^verbatim>\<open>remove_dot_segments\<close> over a segment.\<close>

definition resolve_segment :: "string list \<Rightarrow> string \<Rightarrow> string list" where
  "resolve_segment resolved_segments s =
     (if s = ''..'' then (if resolved_segments = [] then resolved_segments
                          else butlast resolved_segments)
      else if s = ''.'' then resolved_segments
      else resolved_segments @ [s])"

text \<open>\<^verbatim>\<open>segments[1:-1] = filter(None, segments[1:-1])\<close>, with Python's slice bounds.\<close>

definition drop_empty_interior :: "string list \<Rightarrow> string list" where
  "drop_empty_interior segments =
     take 1 segments
       @ filter (\<lambda>s. s \<noteq> []) (take (length segments - 2) (drop 1 segments))
       @ drop (max 1 (length segments - 1)) segments"

definition remove_dot_segments :: "string \<Rightarrow> error + string" where
  "remove_dot_segments path =
     (case path of
        [] \<Rightarrow> Inl IndexError
      | c # _ \<Rightarrow>
          if c \<noteq> CHR ''/'' then Inl (InvalidPath path)
          else
            let segments = drop_empty_interior (split_chr CHR ''/'' path);
                resolved_segments = foldl resolve_segment [] (drop 1 segments)
            in Inr (CHR ''/'' # join_chr CHR ''/'' resolved_segments))"

section \<open>Link sanitizer\<close>

definition is_absolute_url :: "string \<Rightarrow> bool" where
  "is_absolute_url url =
     (if take 2 url = ''//'' then True
      else if lower (take 7 url) = ''http://'' \<or> lower (take 8 url) = ''https://'' then True
      else False)"

text \<open>
  The two regular expressions \<^verbatim>\<open>(?:https?:)?/{3,}\<close> and \<^verbatim>\<open>(?:https?:)?\\{2,}\<close>,
  matched at the start of the link without regard to case: \<open>scheme_prefix\<close> is the match
  of \<^verbatim>\<open>https?:\<close>, and \<open>match_run c n\<close> gives \<^verbatim>\<open>m.group(0)\<close>, the optional prefix
  followed by the whole run of at least \<open>n\<close> characters \<open>c\<close>.  When the prefix matches
  and the run after it is too short, the expression is tried again without the prefix.
\<close>

definition scheme_prefix :: "string \<Rightarrow> string option" where
  "scheme_prefix link =
     (if lower (take 6 link) = ''https:'' then Some (take 6 link)
      else if lower (take 5 link) = ''http:'' then Some (take 5 link)
      else None)"

definition run_after :: "char \<Rightarrow> nat \<Rightarrow> string \<Rightarrow> string \<Rightarrow> string option" where
  "run_after c n pre link =
     (let run = takeWhile (\<lambda>x. x = c) (drop (length pre) link)
      in if n \<le> length run then Some (pre @ run) else None)"

definition match_run :: "char \<Rightarrow> nat \<Rightarrow> string \<Rightarrow> string option" where
  "match_run c n link =
     (case scheme_prefix link of
        None \<Rightarrow> run_after c n [] link
      | Some pre \<Rightarrow>
          (case run_after c n pre link of
             Some m \<Rightarrow> Some m
           | None \<Rightarrow> run_after c n [] link))"

text \<open>Lines 93-97 and 98-102 of the source: the runs of slashes and of backslashes.\<close>

definition collapse_run :: "char \<Rightarrow> nat \<Rightarrow> string \<Rightarrow> string" where
  "collapse_run c n link =
     (case match_run c n link of
        None \<Rightarrow> link
      | Some start \<Rightarrow> rstrip (\<lambda>x. x = c) start @ ''//'' @ replace_first start [] link)"

text \<open>Lines 104-110: the backslash that may follow the host name.\<close>

definition host_backslash :: "string \<Rightarrow> string" where
  "host_backslash link =
     (if is_absolute_url link then
        let start = (case find_sub ''://'' link of None \<Rightarrow> 2 | Some i \<Rightarrow> i + 3)
        in (case find (\<lambda>c. c \<in> {CHR 0x5C, CHR ''/'', CHR ''?'', CHR ''#''}) (drop start link) of
              None \<Rightarrow> link
            | Some g \<Rightarrow>
                if g = CHR 0x5C
                then take start link @ replace_first [CHR 0x5C] ''/'' (drop start link)
                else link)
      else link)"

text \<open>The control characters \<open>0x00..0x1f\<close> and the space.\<close>

definition ctl_or_space :: "char \<Rightarrow> bool" where
  "ctl_or_space c = (of_char c \<le> (32::nat))"

text \<open>Lines 89-110 together: the link as it reaches the length test of line 126.\<close>

definition sanitize_head :: "string \<Rightarrow> string" where
  "sanitize_head link0 =
     (let link = strip ctl_or_space link0;
          link = collapse_run CHR ''/'' 3 link;
          link = collapse_run CHR 0x5C 2 link
      in host_backslash link)"

text \<open>
  \<^verbatim>\<open>re.match(r'(.*?)[<>\"\'\r\n ]', link)\<close>: group 1 of the match, if any.  The lazy
  \<^verbatim>\<open>.*?\<close> tries the character class first at each position, and \<^verbatim>\<open>.\<close> does not
  match a line feed.
\<close>

definition terminators :: "char set" where
  "terminators = {CHR ''<'', CHR ''>'', CHR 0x22, CHR 0x27, CHR 0x0D, CHR 0x0A, CHR '' ''}"

fun runaway_match :: "string \<Rightarrow> string option" where
  "runaway_match [] = None"
| "runaway_match (c # cs) =
     (if c \<in> terminators then Some []
      else if c = CHR 0x0A then None
      else map_option ((#) c) (runaway_match cs))"

definition remove_crlf :: "string \<Rightarrow> string" where
  "remove_crlf link = filter (\<lambda>c. c \<noteq> CHR 0x0A) (filter (\<lambda>c. c \<noteq> CHR 0x0D) link)"

text \<open>
  \<^verbatim>\<open>clean_webpage_links(link, urljoin)\<close>.  The argument \<^verbatim>\<open>urljoin\<close> only appears in
  the log message of line 131 and is left out.
\<close>

definition clean_webpage_links :: "string \<Rightarrow> string" where
  "clean_webpage_links link0 =
     (let link = sanitize_head link0
      in if length link > 300 then
           (let link = (case runaway_match link of None \<Rightarrow> link | Some g \<Rightarrow> g)
            in if length link > 300 then [] else remove_crlf link)
         else remove_crlf link)"

section \<open>Collaborators and \<^verbatim>\<open>urllib.parse\<close>\<close>

text \<open>
  The source calls code that is not part of \<^verbatim>\<open>urls.py\<close>: the module \<^verbatim>\<open>surt\<close> of
  the same package, \<^verbatim>\<open>tldextract\<close>, and \<^verbatim>\<open>urllib.parse\<close>.  The functions of
  \<^verbatim>\<open>surt\<close> and \<^verbatim>\<open>tldextract\<close>, and \<^verbatim>\<open>urllib.parse.urljoin\<close>, are parameters of the
  model, collected in the record \<open>env\<close>; each may raise.  \<^verbatim>\<open>urlsplit\<close> and
  \<^verbatim>\<open>urlunsplit\<close> are modelled below as they stand in CPython 3.11.10; the two checks
  of \<^verbatim>\<open>urlsplit\<close> that consult the \<^verbatim>\<open>ipaddress\<close> and \<^verbatim>\<open>unicodedata\<close> modules are
  parameters as well.
\<close>

record env =
  netloc_to_punycanon :: "string \<Rightarrow> string \<Rightarrow> error + string"
  hostname_to_punycanon :: "string \<Rightarrow> error + string"
  discard_www_from_hostname :: "string \<Rightarrow> error + string"
  surt_surt :: "string \<Rightarrow> error + string"
  tld_registered_domain :: "string \<Rightarrow> error + string"
  urllib_urljoin :: "string \<Rightarrow> string \<Rightarrow> error + string"
  bracketed_host_ok :: "string \<Rightarrow> bool"
  nfkc_netloc_ok :: "string \<Rightarrow> bool"

definition bindE :: "error + 'a \<Rightarrow> ('a \<Rightarrow> error + 'b) \<Rightarrow> error + 'b" where
  "bindE m f = (case m of Inl e \<Rightarrow> Inl e | Inr x \<Rightarrow> f x)"

text \<open>\<^verbatim>\<open>SplitResult(scheme, netloc, path, query, fragment)\<close>.\<close>

record SplitResult =
  s_scheme :: string
  s_netloc :: string
  s_path :: string
  s_query :: string
  s_fragment :: string

definition scheme_chars :: string where
  "scheme_chars = ''abcdefghijklmnopqrstuvwxyzABCDEFGHIJKLMNOPQRSTUVWXYZ0123456789+-.''"

definition ascii_alpha :: "char \<Rightarrow> bool" where
  "ascii_alpha c = (c \<in> set ''abcdefghijklmnopqrstuvwxyzABCDEFGHIJKLMNOPQRSTUVWXYZ'')"

definition uses_netloc :: "string list" where
  "uses_netloc = ['''', ''ftp'', ''http'', ''gopher'', ''nntp'', ''telnet'',
     ''imap'', ''wais'', ''file'', ''mms'', ''https'', ''shttp'',
     ''snews'', ''prospero'', ''rtsp'', ''rtsps'', ''rtspu'', ''rsync'',
     ''svn'', ''svn+ssh'', ''sftp'', ''nfs'', ''git'', ''git+ssh'',
     ''ws'', ''wss'']"

text \<open>\<^verbatim>\<open>s.split(c, 1)\<close> when \<open>c\<close> occurs in \<open>s\<close>: the text before and after the first \<open>c\<close>.\<close>

definition split_once :: "char \<Rightarrow> string \<Rightarrow> string \<times> string" where
  "split_once c s = (takeWhile (\<lambda>x. x \<noteq> c) s, drop 1 (dropWhile (\<lambda>x. x \<noteq> c) s))"

text \<open>The scheme of \<^verbatim>\<open>urlsplit\<close>: the text before the first colon, if it is a scheme name.\<close>

definition split_scheme :: "string \<Rightarrow> string \<times> string" where
  "split_scheme url =
     (case find_sub '':'' url of
        None \<Rightarrow> ([], url)
      | Some i \<Rightarrow>
          if i > 0 \<and> ascii_alpha (hd url) \<and> (\<forall>c \<in> set (take i url). c \<in> set scheme_chars)
          then (lower (take i url), drop (i + 1) url)
          else ([], url))"

text \<open>\<^verbatim>\<open>_splitnetloc(url, 2)\<close>: the network location ends at the first of \<^verbatim>\<open>/?#\<close>.\<close>

definition splitnetloc :: "string \<Rightarrow> string \<times> string" where
  "splitnetloc url =
     (takeWhile (\<lambda>c. c \<notin> {CHR ''/'', CHR ''?'', CHR ''#''}) (drop 2 url),
      dropWhile (\<lambda>c. c \<notin> {CHR ''/'', CHR ''?'', CHR ''#''}) (drop 2 url))"

definition netloc_brackets_ok :: "env \<Rightarrow> string \<Rightarrow> bool" where
  "netloc_brackets_ok env netloc =
     (if (CHR ''['' \<in> set netloc \<and> CHR '']'' \<notin> set netloc)
         \<or> (CHR '']'' \<in> set netloc \<and> CHR ''['' \<notin> set netloc) then False
      else if CHR ''['' \<in> set netloc \<and> CHR '']'' \<in> set netloc then
        bracketed_host_ok env
          (takeWhile (\<lambda>c. c \<noteq> CHR '']'') (drop 1 (dropWhile (\<lambda>c. c \<noteq> CHR ''['') netloc)))
      else True)"

definition checknetloc :: "env \<Rightarrow> string \<Rightarrow> bool" where
  "checknetloc env netloc =
     (if netloc = [] \<or> (\<forall>c \<in> set netloc. of_char c < (128::nat)) then True
      else nfkc_netloc_ok env netloc)"

definition urllib_urlsplit :: "env \<Rightarrow> string \<Rightarrow> error + SplitResult" where
  "urllib_urlsplit env url0 =
     (let url = lstrip ctl_or_space url0;
          url = filter (\<lambda>c. c \<notin> {CHR 0x09, CHR 0x0D, CHR 0x0A}) url;
          (scheme, url) = split_scheme url;
          (netloc, url) = (if take 2 url = ''//'' then splitnetloc url else ([], url))
      in if \<not> netloc_brackets_ok env netloc then Inl InvalidURL
         else
           let (url, fragment) = (if CHR ''#'' \<in> set url then split_once CHR ''#'' url else (url, []));
               (url, query) = (if CHR ''?'' \<in> set url then split_once CHR ''?'' url else (url, []))
           in if \<not> checknetloc env netloc then Inl InvalidURL
              else Inr \<lparr>s_scheme = scheme, s_netloc = netloc, s_path = url,
                         s_query = query, s_fragment = fragment\<rparr>)"

definition urllib_urlunsplit :: "SplitResult \<Rightarrow> string" where
  "urllib_urlunsplit c =
     (let url = s_path c;
          url = (if s_netloc c \<noteq> [] \<or> (s_scheme c \<noteq> [] \<and> s_scheme c \<in> set uses_netloc)
                    \<or> take 2 url = ''//''
                 then
                   (let url = (if url \<noteq> [] \<and> take 1 url \<noteq> ''/'' then CHR ''/'' # url else url)
                    in ''//'' @ s_netloc c @ url)
                 else url);
          url = (if s_scheme c \<noteq> [] then s_scheme c @ '':'' @ url else url);
          url = (if s_query c \<noteq> [] then url @ ''?'' @ s_query c else url);
          url = (if s_fragment c \<noteq> [] then url @ ''#'' @ s_fragment c else url)
      in url)"

section \<open>Seed normalizer and canonicalizer\<close>

definition special_seed_handling :: "env \<Rightarrow> string \<Rightarrow> error + string" where
  "special_seed_handling env url =
     bindE (urllib_urlsplit env url) (\<lambda>parts.
       if s_scheme parts = [] then
         (if startswith url ''//'' then Inr (''http:'' @ url) else Inr (''http://'' @ url))
       else Inr url)"

text \<open>
  \<^verbatim>\<open>safe_url_canonicalization(url)\<close> returns the canonical string and the fragment.  The
  test \<^verbatim>\<open>fragment is not ''\<close> compares with the empty string; \<^verbatim>\<open>urlunsplit\<close> receives
  \<^verbatim>\<open>None\<close> for the fragment and treats it like the empty string.
\<close>

definition safe_url_canonicalization :: "env \<Rightarrow> string \<Rightarrow> error + (string \<times> string)" where
  "safe_url_canonicalization env url0 =
     bindE (unquote url0 unreserved) (\<lambda>url.
     bindE (urllib_urlsplit env url) (\<lambda>parts.
       let scheme = lower (s_scheme parts) in
       bindE (netloc_to_punycanon env scheme (s_netloc parts)) (\<lambda>netloc.
         let path = (if s_path parts = [] then ''/'' else s_path parts) in
         bindE (remove_dot_segments path) (\<lambda>path.
           let path = map (\<lambda>c. if c = CHR 0x5C then CHR ''/'' else c) path in
           bindE (unquote path unquote_in_path) (\<lambda>path.
           bindE (unquote (s_query parts) unquote_in_query) (\<lambda>query.
           bindE (if s_fragment parts \<noteq> []
                  then bindE (unquote (s_fragment parts) unquote_in_frag) (\<lambda>f. Inr (CHR ''#'' # f))
                  else Inr []) (\<lambda>fragment.
             Inr (urllib_urlunsplit \<lparr>s_scheme = scheme, s_netloc = netloc, s_path = path,
                                      s_query = query, s_fragment = []\<rparr>, fragment))))))))"

section \<open>URL value object\<close>

record URL =
  u_url :: string
  u_urlsplit :: SplitResult
  u_netloc :: string
  u_hostname :: string
  u_hostname_without_www :: string
  u_surt :: string
  u_registered_domain :: string
  u_original_frag :: "string option"

text \<open>The argument \<^verbatim>\<open>urljoin\<close> of the constructor: \<^verbatim>\<open>None\<close>, a string, or a URL object.\<close>

datatype urljoin_arg = NoBase | BaseStr string | BaseURL URL

text \<open>Lines 346-352: the link resolved against the base, a URL object.\<close>

definition resolve_link :: "env \<Rightarrow> URL \<Rightarrow> string \<Rightarrow> error + string" where
  "resolve_link env urljoin url =
     (if startswith url ''http://'' \<or> startswith url ''https://'' then Inr url
      else if startswith url ''/'' \<and> \<not> startswith url ''//''
      then Inr (s_scheme (u_urlsplit urljoin) @ ''://'' @ u_hostname urljoin @ url)
      else urllib_urljoin env (u_url urljoin) url)"

text \<open>Lines 354-383: the constructor from the resolved link on.\<close>

definition URL_build :: "env \<Rightarrow> string \<Rightarrow> error + URL" where
  "URL_build env url0 =
     bindE (safe_url_canonicalization env url0) (\<lambda>(url, frag).
       let original_frag = (if length frag > 0 then Some frag else None) in
       bindE (urllib_urlsplit env url) (\<lambda>parts.
         let scheme = s_scheme parts;
             query = s_query parts;
             path = (if s_path parts = [] then ''/'' else s_path parts)
         in
         bindE (netloc_to_punycanon env scheme (s_netloc parts)) (\<lambda>netloc.
         bindE (hostname_to_punycanon env netloc) (\<lambda>hostname.
         bindE (discard_www_from_hostname env hostname) (\<lambda>hostname_without_www.
         bindE (surt_surt env url) (\<lambda>surt.
           let urlsplit = \<lparr>s_scheme = scheme, s_netloc = netloc, s_path = path,
                            s_query = query, s_fragment = []\<rparr>;
               final = urllib_urlunsplit urlsplit
           in
           bindE (tld_registered_domain env final) (\<lambda>registered_domain.
             Inr \<lparr>u_url = final, u_urlsplit = urlsplit, u_netloc = netloc,
                   u_hostname = hostname, u_hostname_without_www = hostname_without_www,
                   u_surt = surt, u_registered_domain = registered_domain,
                   u_original_frag = original_frag\<rparr>)))))))"

text \<open>
  \<^verbatim>\<open>URL(url, urljoin, seed)\<close>.  \<open>URL_resolved\<close> is lines 339-352, the link that
  reaches the canonicalizer.  A base that is \<^verbatim>\<open>None\<close> or the empty string fails the test
  \<^verbatim>\<open>if urljoin:\<close>; a base string is first made a URL object by \<^verbatim>\<open>URL(urljoin)\<close>, the
  constructor without base and seed flag.
\<close>

definition URL_resolved :: "env \<Rightarrow> string \<Rightarrow> urljoin_arg \<Rightarrow> bool \<Rightarrow> error + string" where
  "URL_resolved env url0 urljoin seed =
     bindE (if seed then special_seed_handling env url0 else Inr url0) (\<lambda>url.
       let url = clean_webpage_links url in
       (case urljoin of
          NoBase \<Rightarrow> Inr url
        | BaseStr b \<Rightarrow>
            if b = [] then Inr url
            else bindE (URL_build env (clean_webpage_links b)) (\<lambda>base. resolve_link env base url)
        | BaseURL base \<Rightarrow> resolve_link env base url))"

definition URL_init :: "env \<Rightarrow> string \<Rightarrow> urljoin_arg \<Rightarrow> bool \<Rightarrow> error + URL" where
  "URL_init env url0 urljoin seed =
     bindE (URL_resolved env url0 urljoin seed) (URL_build env)"

section \<open>Redirect classifier\<close>

definition special_redirect :: "URL \<Rightarrow> URL \<Rightarrow> string option" where
  "special_redirect url next_url =
     (let u = u_url url; n = u_url next_url in
      if abs (int (length u) - int (length n)) > 5 then None
      else if u = n then Some ''same''
      else if \<not> endswith u ''/'' \<and> u @ ''/'' = n then Some ''addslash''
      else if endswith u ''/'' \<and> u = n @ ''/'' then Some ''removeslash''
      else if replace_first ''http'' ''https'' u = n then Some ''tohttps''
      else if startswith u ''https'' \<and> replace_first ''https'' ''http'' u = n then Some ''tohttp''
      else if startswith (s_netloc (u_urlsplit url)) ''www.'' then
        (if replace_first ''www.'' [] u = n then Some ''tononwww''
         else if replace_first ''http'' ''https'' (replace_first ''www.'' [] u) = n
         then Some ''tononwww+tohttps''
         else if startswith u ''https''
                 \<and> replace_first ''https'' ''http'' (replace_first ''www.'' [] u) = n
         then Some ''tononwww+tohttp''
         else None)
      else if startswith (s_netloc (u_urlsplit next_url)) ''www.'' then
        (if u = replace_first ''www.'' [] n then Some ''towww''
         else if replace_first ''www.'' [] n = replace_first ''http'' ''https'' u
         then Some ''towww+tohttps''
         else if startswith u ''https''
                 \<and> replace_first ''www.'' [] n = replace_first ''https'' ''http'' u
         then Some ''towww+tohttp''
         else None)
      else None)"

section \<open>The specification's wording of the percent-decode engine\<close>

text \<open>
  The specification describes \<^verbatim>\<open>unquote\<close> as one forward scan over the text: a
  triplet is a percent sign followed by two hexadecimal digits.  \<open>unquote_spec\<close> is that
  scan as the specification words it.  \<open>unquote_scan ok\<close> is the scan with the rule of
  line 207 of the source added: a percent sign that directly follows a percent sign of
  the input starts no triplet (\<open>prev\<close> tells whether the character before was a percent
  sign).  Its parameter \<open>ok\<close> says which pairs count as hexadecimal.
\<close>

definition hexdigit :: "char \<Rightarrow> bool" where
  "hexdigit c = (c \<in> set ''0123456789abcdefABCDEF'')"

definition hex_pair :: "string \<Rightarrow> bool" where
  "hex_pair q = (case q of [a, b] \<Rightarrow> hexdigit a \<and> hexdigit b | _ \<Rightarrow> False)"

definition literal_of :: "string \<Rightarrow> char" where
  "literal_of q = (case py_int16 q of Some n \<Rightarrow> char_of n | None \<Rightarrow> CHR ''%'')"

function unquote_spec :: "string set \<Rightarrow> string \<Rightarrow> string" where
  "unquote_spec safe [] = []"
| "unquote_spec safe (c # cs) =
     (if c = CHR ''%'' \<and> hex_pair (take 2 cs) then
        (if upper (take 2 cs) \<in> safe
         then literal_of (upper (take 2 cs)) # unquote_spec safe (drop 2 cs)
         else CHR ''%'' # upper (take 2 cs) @ unquote_spec safe (drop 2 cs))
      else c # unquote_spec safe cs)"
  by pat_completeness auto
termination
  by (relation "measure (\<lambda>(safe, s). length s)") auto

function unquote_scan :: "(string \<Rightarrow> bool) \<Rightarrow> string set \<Rightarrow> bool \<Rightarrow> string \<Rightarrow> string" where
  "unquote_scan ok safe prev [] = []"
| "unquote_scan ok safe prev (c # cs) =
     (if c = CHR ''%'' \<and> \<not> prev \<and> ok (take 2 cs) then
        (if upper (take 2 cs) \<in> safe
         then literal_of (upper (take 2 cs)) # unquote_scan ok safe False (drop 2 cs)
         else CHR ''%'' # upper (take 2 cs) @ unquote_scan ok safe False (drop 2 cs))
      else c # unquote_scan ok safe (c = CHR ''%'') cs)"
  by pat_completeness auto
termination
  by (relation "measure (\<lambda>(ok, safe, prev, s). length s)") auto

text \<open>A safe-set of two-hex-digit uppercase codes.\<close>

definition safe_codes :: "string set \<Rightarrow> bool" where
  "safe_codes safe = (\<forall>q \<in> safe. length q = 2 \<and> set q \<subseteq> set hex_upper)"

text \<open>
  Every pair of hexadecimal digits that follows a percent sign in the text is written
  in one case: it is a member of \<open>valid_hex\<close>, which holds \<^verbatim>\<open>ab\<close> and \<^verbatim>\<open>AB\<close> but not
  \<^verbatim>\<open>aB\<close>.
\<close>

fun uniform_escapes :: "string \<Rightarrow> bool" where
  "uniform_escapes [] = True"
| "uniform_escapes (c # cs) =
     ((c = CHR ''%'' \<and> hex_pair (take 2 cs) \<longrightarrow> take 2 cs \<in> valid_hex) \<and> uniform_escapes cs)"

text \<open>Membership in \<open>valid_hex\<close>, character by character.\<close>

definition is_valid_hex :: "string \<Rightarrow> bool" where
  "is_valid_hex q =
     (case q of
        [a, b] \<Rightarrow> (a \<in> set hex_lower \<and> b \<in> set hex_lower) \<or> (a \<in> set hex_upper \<and> b \<in> set hex_upper)
      | _ \<Rightarrow> False)"

section \<open>The specification's wording of the path normalizer\<close>

text \<open>
  The segments after the leading empty one, left to right with the segments resolved so
  far: an empty segment that is not the last is dropped, \<^verbatim>\<open>..\<close> removes the last resolved
  segment if there is one, \<^verbatim>\<open>.\<close> is dropped, every other segment is appended; the last
  segment is kept when it is empty.
\<close>

definition rds_step :: "string list \<Rightarrow> string \<Rightarrow> string list" where
  "rds_step resolved s =
     (if s = ''..'' then (if resolved = [] then [] else butlast resolved)
      else if s = ''.'' then resolved
      else resolved @ [s])"

fun rds_segments :: "string list \<Rightarrow> string list \<Rightarrow> string list" where
  "rds_segments resolved [] = resolved"
| "rds_segments resolved [s] = rds_step resolved s"
| "rds_segments resolved (s # t # ss) =
     (if s = [] then rds_segments resolved (t # ss)
      else rds_segments (rds_step resolved s) (t # ss))"

section \<open>Scheme prefixes of the link sanitizer\<close>

text \<open>
  The optional prefix of a link that the sanitizer preserves: nothing, or \<^verbatim>\<open>http:\<close> or
  \<^verbatim>\<open>https:\<close> in any letter case.
\<close>

definition scheme_colon :: "string \<Rightarrow> bool" where
  "scheme_colon p = (p = [] \<or> lower p = ''http:'' \<or> lower p = ''https:'')"

section \<open>Collaborators for the examples\<close>

text \<open>
  Modelled from the spec: the host/SURT collaborator (module \<^verbatim>\<open>surt\<close>) and the domain
  collaborator (\<^verbatim>\<open>tldextract\<close>), whose code is not in \<^verbatim>\<open>urls.py\<close>.  The specification
  says of the first that it canonicalizes a netloc by case-folding, removal of the
  default port and punycode, that it derives the host name, the host name without
  \<^verbatim>\<open>www.\<close> and a SURT key; of the second that it gives the registered domain.
  \<open>example_env\<close> is one such collaborator on ASCII host names: it folds the case,
  removes the default port, and leaves everything else as it is.  Punycode, SURT keys and
  registered domains are not modelled (the two fields are left empty and no theorem
  reads them), and neither is \<^verbatim>\<open>urllib.parse.urljoin\<close>, which raises here.  It serves
  to evaluate the constructor on examples; theorems about every URL object are stated
  for every \<open>env\<close>.
\<close>

definition example_env :: env where
  "example_env =
     \<lparr>netloc_to_punycanon = (\<lambda>scheme netloc.
          let n = lower netloc in
          if scheme = ''http'' \<and> endswith n '':80'' then Inr (take (length n - 3) n)
          else if scheme = ''https'' \<and> endswith n '':443'' then Inr (take (length n - 4) n)
          else Inr n),
      hostname_to_punycanon = (\<lambda>netloc. Inr (lower netloc)),
      discard_www_from_hostname = (\<lambda>hostname.
          Inr (if startswith hostname ''www.'' then drop 4 hostname else hostname)),
      surt_surt = (\<lambda>url. Inr []),
      tld_registered_domain = (\<lambda>url. Inr []),
      urllib_urljoin = (\<lambda>base url. Inl (External ''urljoin'')),
      bracketed_host_ok = (\<lambda>h. True),
      nfkc_netloc_ok = (\<lambda>n. True)\<rparr>"

text \<open>The canonical string of a constructed URL object, and the class of a redirect
  between the URL objects of two strings (constructed without base and seed flag).\<close>

definition url_of :: "error + URL \<Rightarrow> error + string" where
  "url_of r = bindE r (\<lambda>x. Inr (u_url x))"

definition redirect_between :: "env \<Rightarrow> string \<Rightarrow> string \<Rightarrow> error + string option" where
  "redirect_between env a b =
     bindE (URL_init env a NoBase False) (\<lambda>x.
     bindE (URL_init env b NoBase False) (\<lambda>y. Inr (special_redirect x y)))"

text \<open>
  What the examples need of a collaborator: it returns the netloc \<open>host\<close> unchanged
  under the scheme, and its other functions raise nothing.
\<close>

definition keeps_netloc :: "env \<Rightarrow> string \<Rightarrow> string \<Rightarrow> bool" where
  "keeps_netloc env scheme host = (netloc_to_punycanon env scheme host = Inr host)"

definition raises_nothing :: "env \<Rightarrow> bool" where
  "raises_nothing env =
     ((\<forall>h. \<exists>r. hostname_to_punycanon env h = Inr r)
      \<and> (\<forall>h. \<exists>r. discard_www_from_hostname env h = Inr r)
      \<and> (\<forall>u. \<exists>r. surt_surt env u = Inr r)
      \<and> (\<forall>u. \<exists>r. tld_registered_domain env u = Inr r))"

section \<open>Fragments\<close>

text \<open>
  The fragment of a link as \<^verbatim>\<open>urlsplit\<close> reads it: the text after the first \<^verbatim>\<open>#\<close>,
  without tabs, carriage returns and line feeds; empty when there is no \<^verbatim>\<open>#\<close>.
\<close>

definition after_hash :: "string \<Rightarrow> string" where
  "after_hash url = drop 1 (dropWhile (\<lambda>c. c \<noteq> CHR ''#'') url)"

definition fragment_of :: "string \<Rightarrow> string" where
  "fragment_of url = filter (\<lambda>c. c \<notin> {CHR 0x09, CHR 0x0D, CHR 0x0A}) (after_hash url)"

definition original_frag_of :: "error + URL \<Rightarrow> error + string option" where
  "original_frag_of r = bindE r (\<lambda>x. Inr (u_original_frag x))"

text \<open>The netloc collaborator puts no \<^verbatim>\<open>#\<close> into a netloc that has none.\<close>

definition netloc_hash_free :: "env \<Rightarrow> bool" where
  "netloc_hash_free env =
     (\<forall>scheme n r. CHR ''#'' \<notin> set n \<longrightarrow> netloc_to_punycanon env scheme n = Inr r \<longrightarrow>
        CHR ''#'' \<notin> set r)"

section \<open>Evaluation of the tables and of characters\<close>

lemma pairs_of_digits:
  assumes "length ds = 16"
  shows "set (map (\<lambda>i. [ds ! (i div 16), ds ! (i mod 16)]) [0..<256])
         = {q. \<exists>a b. q = [a, b] \<and> a \<in> set ds \<and> b \<in> set ds}"
proof (intro set_eqI iffI)
  fix q assume "q \<in> set (map (\<lambda>i. [ds ! (i div 16), ds ! (i mod 16)]) [0..<256])"
  then obtain i where i: "i < 256" and q: "q = [ds ! (i div 16), ds ! (i mod 16)]" by auto
  from i have "i div 16 < 16" "i mod 16 < 16" by auto
  with assms have "ds ! (i div 16) \<in> set ds" "ds ! (i mod 16) \<in> set ds" by simp_all
  with q show "q \<in> {q. \<exists>a b. q = [a, b] \<and> a \<in> set ds \<and> b \<in> set ds}" by blast
next
  fix q assume "q \<in> {q. \<exists>a b. q = [a, b] \<and> a \<in> set ds \<and> b \<in> set ds}"
  then obtain a b where q: "q = [a, b]" and "a \<in> set ds" "b \<in> set ds" by blast
  then obtain m n where m: "m < 16" "a = ds ! m" and n: "n < 16" "b = ds ! n"
    using assms by (metis in_set_conv_nth)
  let ?i = "16 * m + n"
  from m n have "?i < 256" "?i div 16 = m" "?i mod 16 = n" by auto
  with q m n have "q = (\<lambda>i. [ds ! (i div 16), ds ! (i mod 16)]) ?i" "?i \<in> set [0..<256]" by auto
  then show "q \<in> set (map (\<lambda>i. [ds ! (i div 16), ds ! (i mod 16)]) [0..<256])"
    by (metis (no_types, lifting) image_eqI set_map)
qed

lemma valid_hex_iff: "q \<in> valid_hex \<longleftrightarrow> is_valid_hex q"
proof -
  have l: "set (map fmt_02x [0..<256]) = {q. \<exists>a b. q = [a, b] \<and> a \<in> set hex_lower \<and> b \<in> set hex_lower}"
    using pairs_of_digits [of hex_lower] unfolding fmt_02x_def by (simp add: hex_lower_def)
  have u: "set (map fmt_02X [0..<256]) = {q. \<exists>a b. q = [a, b] \<and> a \<in> set hex_upper \<and> b \<in> set hex_upper}"
    using pairs_of_digits [of hex_upper] unfolding fmt_02X_def by (simp add: hex_upper_def)
  show ?thesis
    unfolding valid_hex_def l u is_valid_hex_def
    by (auto split: list.splits)
qed

lemma char_of_nat_bits:
  "char_of (n::nat) = Char (odd n) (odd (n div 2)) (odd (n div 4)) (odd (n div 8))
     (odd (n div 16)) (odd (n div 32)) (odd (n div 64)) (odd (n div 128))"
  by (simp add: char_of_def bit_iff_odd_drop_bit drop_bit_eq_div)

lemmas py_eval = valid_hex_iff is_valid_hex_def hex_lower_def hex_upper_def upper_def upper_chr_def
  lower_def lower_chr_def py_int16_def py_chr_def hexval_def char_of_nat_bits endswith_def
  startswith_def unquote_def hex_pair_def hexdigit_def literal_of_def ctl_or_space_def

text \<open>The tables as explicit lists, and as code equations for evaluation.\<close>

lemma unreserved_eq:
  "unreserved = set [''41'', ''42'', ''43'', ''44'', ''45'', ''46'', ''47'', ''48'', ''49'', ''4A'',
     ''4B'', ''4C'', ''4D'', ''4E'', ''4F'', ''50'', ''51'', ''52'', ''53'', ''54'', ''55'', ''56'',
     ''57'', ''58'', ''59'', ''5A'',
     ''61'', ''62'', ''63'', ''64'', ''65'', ''66'', ''67'', ''68'', ''69'', ''6A'',
     ''6B'', ''6C'', ''6D'', ''6E'', ''6F'', ''70'', ''71'', ''72'', ''73'', ''74'', ''75'', ''76'',
     ''77'', ''78'', ''79'', ''7A'',
     ''30'', ''31'', ''32'', ''33'', ''34'', ''35'', ''36'', ''37'', ''38'', ''39'',
     ''2D'', ''2E'', ''5F'', ''7E'']"
  unfolding unreserved_def fmt_02X_def hex_upper_def
  by (simp add: insert_commute)

lemma subdelims_eq:
  "subdelims = set [''21'', ''24'', ''3B'', ''3D'', ''26'', ''27'', ''28'', ''29'', ''2A'', ''2B'', ''2C'']"
  unfolding subdelims_def fmt_02X_def hex_upper_def
  by (simp add: insert_commute)

lemma valid_hex_code [code_unfold]: "q \<in> valid_hex \<longleftrightarrow> is_valid_hex q"
  by (rule valid_hex_iff)

declare unreserved_eq [code] subdelims_eq [code]

text \<open>
  Code equations that unfold the functions over strings only on a string whose first
  constructor is known: evaluation then leaves them folded under a binder.
\<close>

lemmas clean_webpage_links_code [code] =
  clean_webpage_links_def [of "[]"] clean_webpage_links_def [of "c # cs" for c cs]

lemmas unquote_code [code] =
  unquote_def [of "[]" safe for safe] unquote_def [of "c # cs" safe for c cs safe]

lemmas urllib_urlsplit_code [code] =
  urllib_urlsplit_def [of env "[]" for env] urllib_urlsplit_def [of env "c # cs" for env c cs]

lemmas remove_dot_segments_code [code] =
  remove_dot_segments_def [of "[]"] remove_dot_segments_def [of "c # cs" for c cs]

lemmas safe_url_canonicalization_code [code] =
  safe_url_canonicalization_def [of env "[]" for env]
  safe_url_canonicalization_def [of env "c # cs" for env c cs]

lemmas URL_build_code [code] =
  URL_build_def [of env "[]" for env] URL_build_def [of env "c # cs" for env c cs]

lemmas special_seed_handling_code [code] =
  special_seed_handling_def [of env "[]" for env]
  special_seed_handling_def [of env "c # cs" for env c cs]

lemmas resolve_link_code [code] =
  resolve_link_def [of env b "[]" for env b] resolve_link_def [of env b "c # cs" for env b c cs]

section \<open>The percent-decode engine is a forward scan\<close>

lemma split_chr_nonempty: "split_chr c s \<noteq> []"
  by (induction s) (auto split: list.splits)

lemma split_chr_pieces:
  "split_chr c s = p # ps \<Longrightarrow>
     s = p @ concat (map ((#) c) ps) \<and> c \<notin> set p \<and> (\<forall>q \<in> set ps. c \<notin> set q)"
proof (induction s arbitrary: p ps)
  case Nil
  then show ?case by simp
next
  case (Cons x xs)
  obtain p' ps' where sp: "split_chr c xs = p' # ps'"
    using split_chr_nonempty [of c xs] by (cases "split_chr c xs") auto
  from Cons.IH [OF sp] have ih: "xs = p' @ concat (map ((#) c) ps')" "c \<notin> set p'"
    "\<forall>q \<in> set ps'. c \<notin> set q" by simp_all
  show ?case
  proof (cases "x = c")
    case True
    with Cons.prems sp have "p = []" "ps = p' # ps'" by simp_all
    with ih True show ?thesis by simp
  next
    case False
    with Cons.prems sp have "p = x # p'" "ps = ps'" by simp_all
    with ih False show ?thesis by simp
  qed
qed

lemma unquote_scan_free:
  "CHR ''%'' \<notin> set p \<Longrightarrow>
     unquote_scan ok safe prev (p @ m) = p @ unquote_scan ok safe (if p = [] then prev else False) m"
proof (induction p arbitrary: prev)
  case Nil
  then show ?case by simp
next
  case (Cons x xs)
  then have x: "x \<noteq> CHR ''%''" and xs: "CHR ''%'' \<notin> set xs" by auto
  have "unquote_scan ok safe prev ((x # xs) @ m) = x # unquote_scan ok safe False (xs @ m)"
    using x by simp
  also have "\<dots> = x # xs @ unquote_scan ok safe False m"
    using Cons.IH [OF xs, of False] by simp
  finally show ?case by simp
qed

lemma is_valid_hex_length: "is_valid_hex q \<Longrightarrow> length q = 2"
  by (auto simp: is_valid_hex_def split: list.splits)

lemma is_valid_hex_no_pct: "is_valid_hex q \<Longrightarrow> CHR ''%'' \<notin> set q"
  by (auto simp: is_valid_hex_def hex_lower_def hex_upper_def split: list.splits)

lemma upper_chr_hex_lower: "a \<in> set hex_lower \<Longrightarrow> upper_chr a \<in> set hex_upper"
  unfolding hex_lower_def hex_upper_def set_simps insert_iff empty_iff
  by (elim disjE FalseE; simp add: upper_chr_def)

lemma upper_chr_hex_upper: "a \<in> set hex_upper \<Longrightarrow> upper_chr a = a"
  unfolding hex_upper_def set_simps insert_iff empty_iff
  by (elim disjE FalseE; simp add: upper_chr_def)

lemma is_valid_hex_upper:
  assumes "is_valid_hex q"
  shows "length (upper q) = 2 \<and> set (upper q) \<subseteq> set hex_upper"
proof -
  from assms obtain a b where q: "q = [a, b]"
    and ab: "(a \<in> set hex_lower \<and> b \<in> set hex_lower) \<or> (a \<in> set hex_upper \<and> b \<in> set hex_upper)"
    by (auto simp: is_valid_hex_def split: list.splits)
  from ab have "upper_chr a \<in> set hex_upper" "upper_chr b \<in> set hex_upper"
    using upper_chr_hex_lower upper_chr_hex_upper by metis+
  with q show ?thesis by (simp add: upper_def)
qed

lemma hexval_upper: "a \<in> set hex_upper \<Longrightarrow> \<exists>d. hexval a = Some d \<and> d < 16"
  unfolding hex_upper_def set_simps insert_iff empty_iff
  by (elim disjE FalseE; simp add: hexval_def)

lemma hexval_upper_2: "a \<in> set hex_upper \<Longrightarrow> hexval a = Some 2 \<Longrightarrow> a = CHR ''2''"
  unfolding hex_upper_def set_simps insert_iff empty_iff
  by (elim disjE FalseE; simp add: hexval_def)

lemma hexval_upper_5: "a \<in> set hex_upper \<Longrightarrow> hexval a = Some 5 \<Longrightarrow> a = CHR ''5''"
  unfolding hex_upper_def set_simps insert_iff empty_iff
  by (elim disjE FalseE; simp add: hexval_def)

lemma decode_upper_pair:
  assumes "length q = 2" "set q \<subseteq> set hex_upper"
  shows "\<exists>n. py_int16 q = Some n \<and> n < 256 \<and> (char_of n = CHR ''%'' \<longrightarrow> q = ''25'')"
proof -
  from assms obtain a b where q: "q = [a, b]" and a: "a \<in> set hex_upper" and b: "b \<in> set hex_upper"
    by (cases q; cases "tl q") auto
  from hexval_upper [OF a] obtain x where x: "hexval a = Some x" "x < 16" by blast
  from hexval_upper [OF b] obtain y where y: "hexval b = Some y" "y < 16" by blast
  have n: "py_int16 q = Some (16 * x + y)" using q x y by (simp add: py_int16_def)
  have lt: "16 * x + y < 256" using x y by simp
  have "q = ''25''" if "char_of (16 * x + y) = CHR ''%''"
  proof -
    have "of_char (char_of (16 * x + y) :: char) = (of_char (CHR ''%'') :: nat)" using that by simp
    then have "16 * x + y = 37" using lt by simp
    then have "x = 2" "y = 5" using x(2) y(2) by arith+
    then have "a = CHR ''2''" "b = CHR ''5''"
      using x(1) y(1) hexval_upper_2 [OF a] hexval_upper_5 [OF b] by simp_all
    then show ?thesis using q by simp
  qed
  with n lt show ?thesis by blast
qed

lemma endswith_pct: "endswith t ''%'' \<longleftrightarrow> t \<noteq> [] \<and> last t = CHR ''%''"
proof (cases t rule: rev_cases)
  case Nil
  then show ?thesis by (simp add: endswith_def)
next
  case (snoc ys y)
  then show ?thesis by (auto simp: endswith_def)
qed

lemma endswith_pct_free:
  "CHR ''%'' \<notin> set p \<Longrightarrow> p \<noteq> [] \<Longrightarrow> \<not> endswith (t @ p) ''%''"
  by (metis endswith_pct last_appendR last_in_set)

lemma endswith_pct_free0: "CHR ''%'' \<notin> set p \<Longrightarrow> \<not> endswith p ''%''"
  by (metis endswith_pct last_in_set)

lemma take2_beyond:
  assumes "CHR ''%'' \<notin> set p" "m = [] \<or> hd m = CHR ''%''"
  shows "is_valid_hex (take 2 (p @ m)) \<longleftrightarrow> is_valid_hex (take 2 p)"
proof (cases "2 \<le> length p")
  case True
  then show ?thesis by simp
next
  case False
  show ?thesis
  proof (cases m)
    case Nil
    then show ?thesis by simp
  next
    case (Cons x xs)
    with assms have x: "x = CHR ''%''" by simp
    from False have "length p = 0 \<or> length p = 1" by arith
    then have "CHR ''%'' \<in> set (take 2 (p @ m))"
      using Cons x by (cases p) auto
    then have "\<not> is_valid_hex (take 2 (p @ m))" using is_valid_hex_no_pct by blast
    moreover have "\<not> is_valid_hex (take 2 p)"
      using False is_valid_hex_length [of "take 2 p"] by auto
    ultimately show ?thesis by simp
  qed
qed


lemma scan_step_decode:
  "\<not> prev \<Longrightarrow> ok (take 2 cs) \<Longrightarrow> upper (take 2 cs) \<in> safe \<Longrightarrow>
     unquote_scan ok safe prev (CHR ''%'' # cs) =
     literal_of (upper (take 2 cs)) # unquote_scan ok safe False (drop 2 cs)"
  by simp

lemma scan_step_reemit:
  "\<not> prev \<Longrightarrow> ok (take 2 cs) \<Longrightarrow> upper (take 2 cs) \<notin> safe \<Longrightarrow>
     unquote_scan ok safe prev (CHR ''%'' # cs) =
     CHR ''%'' # upper (take 2 cs) @ unquote_scan ok safe False (drop 2 cs)"
  by simp

lemma scan_step_literal:
  "prev \<or> \<not> ok (take 2 cs) \<Longrightarrow>
     unquote_scan ok safe prev (CHR ''%'' # cs) = CHR ''%'' # unquote_scan ok safe True cs"
  by auto

lemma concat_pct_shape:
  "concat (map ((#) CHR ''%'') ps) = [] \<or> hd (concat (map ((#) CHR ''%'') ps)) = CHR ''%''"
  by (cases ps) auto

lemma unquote_loop_scan:
  assumes safe: "safe_codes safe" and no25: "''25'' \<notin> safe"
    and free: "\<forall>p \<in> set ps. CHR ''%'' \<notin> set p"
  shows "unquote_loop safe ps t =
         Inr (t @ unquote_scan (\<lambda>q. q \<in> valid_hex) safe (endswith t ''%'')
                    (concat (map ((#) CHR ''%'') ps)))"
  using free
proof (induction ps arbitrary: t)
  case Nil
  then show ?case by simp
next
  case (Cons p ps)
  let ?ok = "\<lambda>q. q \<in> valid_hex"
  let ?M = "concat (map ((#) CHR ''%'') ps)"
  from Cons.prems have p: "CHR ''%'' \<notin> set p" and ps: "\<forall>p \<in> set ps. CHR ''%'' \<notin> set p"
    by auto
  note IH = Cons.IH [OF ps]
  have M: "?M = [] \<or> hd ?M = CHR ''%''" by (rule concat_pct_shape)
  have input: "concat (map ((#) CHR ''%'') (p # ps)) = CHR ''%'' # p @ ?M" by simp
  have literal: "unquote_scan ?ok safe True (p @ ?M) = p @ unquote_scan ?ok safe (p = []) ?M"
    using unquote_scan_free [OF p, of ?ok safe True ?M] by (cases p) auto
  have ends_lit: "endswith (t @ ''%'' @ p) ''%'' \<longleftrightarrow> p = []"
  proof (cases "p = []")
    case True
    then show ?thesis by (simp add: endswith_pct)
  next
    case False
    with endswith_pct_free [OF p False, of "t @ ''%''"] show ?thesis by simp
  qed
  have take2: "take 2 (p @ ?M) \<in> valid_hex \<longleftrightarrow> take 2 p \<in> valid_hex"
    using take2_beyond [OF p M] by (simp add: valid_hex_iff)
  show ?case
  proof (cases "endswith t ''%''")
    case True
    have "unquote_loop safe (p # ps) t = unquote_loop safe ps (t @ ''%'' @ p)"
      using True by simp
    also have "\<dots> = Inr ((t @ ''%'' @ p) @ unquote_scan ?ok safe (p = []) ?M)"
      using IH [of "t @ ''%'' @ p"] ends_lit by simp
    finally have lhs: "unquote_loop safe (p # ps) t =
        Inr (t @ ''%'' @ p @ unquote_scan ?ok safe (p = []) ?M)" by simp
    have "unquote_scan ?ok safe True (CHR ''%'' # p @ ?M) = CHR ''%'' # p @ unquote_scan ?ok safe (p = []) ?M"
      using scan_step_literal [of True ?ok "p @ ?M" safe] literal by simp
    with lhs True input show ?thesis by simp
  next
    case notend: False
    show ?thesis
    proof (cases "take 2 p \<in> valid_hex")
      case valid: True
      then have v: "is_valid_hex (take 2 p)" by (simp add: valid_hex_iff)
      from is_valid_hex_length [OF v] have len: "2 \<le> length p" by auto
      then have tk: "take 2 (p @ ?M) = take 2 p" and dr: "drop 2 (p @ ?M) = drop 2 p @ ?M" by simp_all
      let ?q = "upper (take 2 p)"
      from is_valid_hex_upper [OF v] have uq: "length ?q = 2" "set ?q \<subseteq> set hex_upper" by simp_all
      have rest_free: "CHR ''%'' \<notin> set (drop 2 p)" using p by (meson in_set_dropD)
      have cont: "unquote_scan ?ok safe False (drop 2 p @ ?M) = drop 2 p @ unquote_scan ?ok safe False ?M"
        using unquote_scan_free [OF rest_free, of ?ok safe False ?M] by simp
      show ?thesis
      proof (cases "?q \<in> safe")
        case insafe: True
        from decode_upper_pair [OF uq] obtain n where n: "py_int16 ?q = Some n" "n < 256"
          "char_of n = CHR ''%'' \<longrightarrow> ?q = ''25''" by blast
        from insafe no25 n(3) have ch: "char_of n \<noteq> CHR ''%''" by auto
        have lit: "literal_of ?q = char_of n" using n by (simp add: literal_of_def)
        have ends: "\<not> endswith (t @ char_of n # drop 2 p) ''%''"
          using endswith_pct_free [of "char_of n # drop 2 p" t] ch rest_free by simp
        have "unquote_loop safe (p # ps) t = unquote_loop safe ps (t @ char_of n # drop 2 p)"
          using notend valid insafe n by (simp add: py_chr_def)
        also have "\<dots> = Inr ((t @ char_of n # drop 2 p) @ unquote_scan ?ok safe False ?M)"
          using IH [of "t @ char_of n # drop 2 p"] ends by simp
        finally have lhs: "unquote_loop safe (p # ps) t =
            Inr (t @ char_of n # drop 2 p @ unquote_scan ?ok safe False ?M)" by simp
        have ok1: "take 2 (p @ ?M) \<in> valid_hex" unfolding tk using valid .
        have in1: "upper (take 2 (p @ ?M)) \<in> safe" unfolding tk using insafe .
        have "unquote_scan ?ok safe False (CHR ''%'' # p @ ?M) =
              char_of n # drop 2 p @ unquote_scan ?ok safe False ?M"
          using scan_step_decode [of False ?ok "p @ ?M" safe, OF _ ok1 in1]
          unfolding tk dr cont lit by simp
        with lhs notend input show ?thesis by simp
      next
        case notsafe: False
        have qne: "?q \<noteq> []" using uq by auto
        have qfree: "CHR ''%'' \<notin> set ?q" using uq by (auto simp: hex_upper_def)
        have ends: "\<not> endswith (t @ ''%'' @ ?q @ drop 2 p) ''%''"
          using endswith_pct_free [of "?q @ drop 2 p" "t @ ''%''"] qne qfree rest_free by simp
        have "unquote_loop safe (p # ps) t = unquote_loop safe ps (t @ ''%'' @ ?q @ drop 2 p)"
          using notend valid notsafe by simp
        also have "\<dots> = Inr ((t @ ''%'' @ ?q @ drop 2 p) @ unquote_scan ?ok safe False ?M)"
          using IH [of "t @ ''%'' @ ?q @ drop 2 p"] ends by simp
        finally have lhs: "unquote_loop safe (p # ps) t =
            Inr (t @ ''%'' @ ?q @ drop 2 p @ unquote_scan ?ok safe False ?M)" by simp
        have ok1: "take 2 (p @ ?M) \<in> valid_hex" unfolding tk using valid .
        have in1: "upper (take 2 (p @ ?M)) \<notin> safe" unfolding tk using notsafe .
        have "unquote_scan ?ok safe False (CHR ''%'' # p @ ?M) =
              CHR ''%'' # ?q @ drop 2 p @ unquote_scan ?ok safe False ?M"
          using scan_step_reemit [of False ?ok "p @ ?M" safe, OF _ ok1 in1]
          unfolding tk dr cont by simp
        with lhs notend input show ?thesis by simp
      qed
    next
      case invalid: False
      have "take 2 p \<notin> safe"
      proof
        assume "take 2 p \<in> safe"
        with safe have "length (take 2 p) = 2" "set (take 2 p) \<subseteq> set hex_upper"
          by (auto simp: safe_codes_def)
        then have "is_valid_hex (take 2 p)"
          by (cases "take 2 p"; cases "tl (take 2 p)") (auto simp: is_valid_hex_def)
        with invalid show False by (simp add: valid_hex_iff)
      qed
      then have "unquote_loop safe (p # ps) t = unquote_loop safe ps (t @ ''%'' @ p)"
        using notend invalid by simp
      also have "\<dots> = Inr ((t @ ''%'' @ p) @ unquote_scan ?ok safe (p = []) ?M)"
        using IH [of "t @ ''%'' @ p"] ends_lit by simp
      finally have lhs: "unquote_loop safe (p # ps) t =
          Inr (t @ ''%'' @ p @ unquote_scan ?ok safe (p = []) ?M)" by simp
      have nok: "take 2 (p @ ?M) \<notin> valid_hex" using invalid take2 by blast
      have "unquote_scan ?ok safe False (CHR ''%'' # p @ ?M) =
            CHR ''%'' # p @ unquote_scan ?ok safe (p = []) ?M"
        using scan_step_literal [of False ?ok "p @ ?M" safe] nok unfolding literal by blast
      with lhs notend input show ?thesis by simp
    qed
  qed
qed

lemma unquote_is_scan:
  assumes "safe_codes safe" "''25'' \<notin> safe"
  shows "unquote s safe = Inr (unquote_scan (\<lambda>q. q \<in> valid_hex) safe False s)"
proof -
  obtain p ps where sp: "split_chr CHR ''%'' s = p # ps"
    using split_chr_nonempty [of "CHR ''%''" s] by (cases "split_chr CHR ''%'' s") auto
  from split_chr_pieces [OF sp] have s: "s = p @ concat (map ((#) CHR ''%'') ps)"
    and p: "CHR ''%'' \<notin> set p" and ps: "\<forall>q \<in> set ps. CHR ''%'' \<notin> set q" by simp_all
  have e: "\<not> endswith p ''%''" using p by (rule endswith_pct_free0)
  have "unquote s safe = unquote_loop safe ps p" using sp by (simp add: unquote_def)
  also have "\<dots> = Inr (p @ unquote_scan (\<lambda>q. q \<in> valid_hex) safe False (concat (map ((#) CHR ''%'') ps)))"
    using unquote_loop_scan [OF assms ps, of p] e by simp
  also have "p @ unquote_scan (\<lambda>q. q \<in> valid_hex) safe False (concat (map ((#) CHR ''%'') ps))
      = unquote_scan (\<lambda>q. q \<in> valid_hex) safe False (p @ concat (map ((#) CHR ''%'') ps))"
    using unquote_scan_free [OF p, of "\<lambda>q. q \<in> valid_hex" safe False] by simp
  finally show ?thesis using s by simp
qed

lemma is_valid_hex_pair: "is_valid_hex q \<Longrightarrow> hex_pair q"
  by (auto simp: is_valid_hex_def hex_pair_def hexdigit_def hex_lower_def hex_upper_def
      split: list.splits)

lemma uniform_escapes_drop: "uniform_escapes s \<Longrightarrow> uniform_escapes (drop n s)"
proof (induction s arbitrary: n)
  case Nil
  then show ?case by simp
next
  case (Cons c cs)
  then show ?case by (cases n) auto
qed

lemma scan_uniform:
  "uniform_escapes s \<Longrightarrow>
     unquote_scan (\<lambda>q. q \<in> valid_hex) safe prev s = unquote_scan hex_pair safe prev s"
proof (induction s arbitrary: prev rule: length_induct)
  case (1 s)
  note IH = "1.IH" [rule_format]
  show ?case
  proof (cases s)
    case Nil
    then show ?thesis by simp
  next
    case (Cons c cs)
    from "1.prems" Cons have u: "uniform_escapes cs"
      and esc: "c = CHR ''%'' \<and> hex_pair (take 2 cs) \<longrightarrow> take 2 cs \<in> valid_hex" by simp_all
    have ud: "uniform_escapes (drop 2 cs)" using u by (rule uniform_escapes_drop)
    have same: "c = CHR ''%'' \<Longrightarrow> take 2 cs \<in> valid_hex \<longleftrightarrow> hex_pair (take 2 cs)"
      using esc is_valid_hex_pair by (auto simp: valid_hex_iff)
    have r1: "unquote_scan (\<lambda>q. q \<in> valid_hex) safe b cs = unquote_scan hex_pair safe b cs" for b
      using IH [of cs b] u Cons by simp
    have r2: "unquote_scan (\<lambda>q. q \<in> valid_hex) safe b (drop 2 cs) = unquote_scan hex_pair safe b (drop 2 cs)" for b
      using IH [of "drop 2 cs" b] ud Cons by simp
    show ?thesis
    proof (cases "c = CHR ''%''")
      case True
      with same r1 r2 Cons show ?thesis by simp
    next
      case False
      with r1 Cons show ?thesis by simp
    qed
  qed
qed

text \<open>
  C2, as the specification states it, fails on the code: a triplet that directly follows
  a percent sign is not decoded (line 207), a pair whose two digits differ in case is
  not in \<open>valid_hex\<close> and stays as it is, and a decoded percent sign (safe-set holding
  \<^verbatim>\<open>25\<close>) suppresses the triplet after it.
\<close>

theorem unquote_spec_counterexample:
  "unquote ''%%41'' {''41''} = Inr ''%%41'' \<and> unquote_spec {''41''} ''%%41'' = ''%A''
   \<and> unquote ''%aB'' {} = Inr ''%aB'' \<and> unquote_spec {} ''%aB'' = ''%AB''
   \<and> unquote ''%25%41'' {''25'', ''41''} = Inr ''%%41''
   \<and> unquote_spec {''25'', ''41''} ''%25%41'' = ''%A''"
  by (simp add: py_eval)

text \<open>
  C2 (amended).  For every text whose hexadecimal pairs after a percent sign are written
  in one case, and every safe-set of two-hex-digit uppercase codes that does not hold
  \<^verbatim>\<open>25\<close>, \<^verbatim>\<open>unquote\<close> never fails and returns the forward scan \<open>unquote_scan hex_pair\<close>:
  a percent sign that directly follows a percent sign is copied; any other percent sign
  followed by two hexadecimal digits is decoded to the literal character when the
  uppercased pair is in the safe-set and re-emitted with the uppercased pair otherwise;
  every other character, a malformed pair and a trailing percent sign included, is copied;
  decoded characters are not scanned again.  The four examples of the specification hold.
\<close>

theorem unquote_selective_decoding:
  "(safe_codes safe \<and> ''25'' \<notin> safe \<and> uniform_escapes s \<longrightarrow>
      unquote s safe = Inr (unquote_scan hex_pair safe False s))
   \<and> unquote ''%2F'' {''2F''} = Inr ''/''
   \<and> unquote ''%2f'' {''2F''} = Inr ''/''
   \<and> unquote ''%xy'' {} = Inr ''%xy''
   \<and> unquote ''%'' {} = Inr ''%''"
proof (intro conjI impI)
  assume h: "safe_codes safe \<and> ''25'' \<notin> safe \<and> uniform_escapes s"
  then have "unquote s safe = Inr (unquote_scan (\<lambda>q. q \<in> valid_hex) safe False s)"
    using unquote_is_scan by blast
  with h show "unquote s safe = Inr (unquote_scan hex_pair safe False s)"
    using scan_uniform by simp
qed (simp_all add: py_eval)

theorem unquote_selective_decoding_witness:
  "safe_codes {''2F'', ''41''} \<and> ''25'' \<notin> {''2F'', ''41''}
   \<and> uniform_escapes ''a%2fb%%41%zz%''
   \<and> unquote ''a%2fb%%41%zz%'' {''2F'', ''41''} = Inr ''a/b%%41%zz%''"
proof -
  have h1: "safe_codes {''2F'', ''41''}" by (simp add: safe_codes_def hex_upper_def)
  have h2: "''25'' \<notin> {''2F'', ''41''}" by simp
  have h3: "uniform_escapes ''a%2fb%%41%zz%''" by (simp add: py_eval)
  have "unquote ''a%2fb%%41%zz%'' {''2F'', ''41''}
        = Inr (unquote_scan hex_pair {''2F'', ''41''} False ''a%2fb%%41%zz%'')"
    using unquote_selective_decoding [of "{''2F'', ''41''}" "''a%2fb%%41%zz%''"] h1 h2 h3
    by blast
  moreover have "unquote_scan hex_pair {''2F'', ''41''} False ''a%2fb%%41%zz%'' = ''a/b%%41%zz%''"
    by (simp add: py_eval)
  ultimately show ?thesis using h1 h2 h3 by simp
qed

section \<open>The path normalizer\<close>

lemma drop_last_one: "xs \<noteq> [] \<Longrightarrow> drop (length xs - 1) xs = [last xs]"
  by (cases xs rule: rev_cases) simp_all

lemma drop_empty_interior_root:
  assumes "segs \<noteq> []"
  shows "drop 1 (drop_empty_interior ([] # segs)) = filter (\<lambda>s. s \<noteq> []) (butlast segs) @ [last segs]"
proof -
  from assms have len: "1 \<le> length segs" by (cases segs) auto
  then have m: "max 1 (length segs) = length segs" by simp
  have "drop (length segs) ([] # segs) = drop (length segs - 1) segs"
    using len by (cases "length segs") auto
  with assms have d: "drop (max 1 (length ([] # segs) - 1)) ([] # segs) = [last segs]"
    using m drop_last_one by simp
  have t: "take (length ([] # segs) - 2) (drop 1 ([] # segs)) = butlast segs"
    by (simp add: butlast_conv_take)
  show ?thesis unfolding drop_empty_interior_def d t by simp
qed

lemma resolve_segment_rds_step: "resolve_segment acc s = rds_step acc s"
  by (simp add: resolve_segment_def rds_step_def)

lemma foldl_rds_segments:
  "segs \<noteq> [] \<Longrightarrow>
     foldl resolve_segment acc (filter (\<lambda>s. s \<noteq> []) (butlast segs) @ [last segs])
     = rds_segments acc segs"
proof (induction acc segs rule: rds_segments.induct)
  case (1 resolved)
  then show ?case by simp
next
  case (2 resolved s)
  then show ?case by (simp add: resolve_segment_rds_step)
next
  case (3 resolved s t ss)
  then show ?case by (simp add: resolve_segment_rds_step)
qed

lemma remove_dot_segments_rooted:
  "remove_dot_segments (CHR ''/'' # rest)
   = Inr (CHR ''/'' # join_chr CHR ''/'' (rds_segments [] (split_chr CHR ''/'' rest)))"
proof -
  have ne: "split_chr CHR ''/'' rest \<noteq> []" by (rule split_chr_nonempty)
  have "drop 1 (drop_empty_interior (split_chr CHR ''/'' (CHR ''/'' # rest)))
        = filter (\<lambda>s. s \<noteq> []) (butlast (split_chr CHR ''/'' rest)) @ [last (split_chr CHR ''/'' rest)]"
    using drop_empty_interior_root [OF ne] by simp
  then show ?thesis
    using foldl_rds_segments [OF ne, of "[]"] by (simp add: remove_dot_segments_def Let_def)
qed

text \<open>
  C3.  For every path that starts with \<^verbatim>\<open>/\<close>, \<^verbatim>\<open>remove_dot_segments\<close> returns \<^verbatim>\<open>/\<close>
  followed by the segments that the specification's left-to-right procedure
  \<open>rds_segments\<close> resolves from the segments after the leading empty one, joined by
  \<^verbatim>\<open>/\<close>; the result starts with \<^verbatim>\<open>/\<close>.  The four examples of the specification hold.
\<close>

theorem remove_dot_segments_resolves:
  "(startswith path ''/'' \<longrightarrow>
      remove_dot_segments path
      = Inr (CHR ''/'' # join_chr CHR ''/'' (rds_segments [] (drop 1 (split_chr CHR ''/'' path)))))
   \<and> remove_dot_segments ''/a/b/../c'' = Inr ''/a/c''
   \<and> remove_dot_segments ''/../a'' = Inr ''/a''
   \<and> remove_dot_segments ''/a//b'' = Inr ''/a/b''
   \<and> remove_dot_segments ''/a/'' = Inr ''/a/''"
proof (intro conjI impI)
  assume "startswith path ''/''"
  then obtain rest where p: "path = CHR ''/'' # rest"
    by (cases path) (auto simp: startswith_def)
  show "remove_dot_segments path
        = Inr (CHR ''/'' # join_chr CHR ''/'' (rds_segments [] (drop 1 (split_chr CHR ''/'' path))))"
    unfolding p remove_dot_segments_rooted by simp
qed (simp_all add: remove_dot_segments_rooted rds_step_def)

theorem remove_dot_segments_resolves_witness:
  "startswith ''/x/./y//../z/'' ''/'' \<and> remove_dot_segments ''/x/./y//../z/'' = Inr ''/x/z/''"
proof -
  have h: "startswith ''/x/./y//../z/'' ''/''" by (simp add: startswith_def)
  have "remove_dot_segments ''/x/./y//../z/''
        = Inr (CHR ''/'' # join_chr CHR ''/''
                 (rds_segments [] (drop 1 (split_chr CHR ''/'' ''/x/./y//../z/''))))"
    using remove_dot_segments_resolves [of "''/x/./y//../z/''"] h by blast
  then show ?thesis using h by (simp add: rds_step_def)
qed

lemma remove_dot_segments_nonempty:
  "path \<noteq> [] \<Longrightarrow>
     (remove_dot_segments path = Inl (InvalidPath path)) = (\<not> startswith path ''/'')"
  by (cases path) (auto simp: remove_dot_segments_def startswith_def Let_def)

text \<open>
  C4.  On the empty string the test \<^verbatim>\<open>path[0] != '/'\<close> of line 160 raises
  \<^verbatim>\<open>IndexError\<close>: the path does not start with \<^verbatim>\<open>/\<close>, and the error is not the
  \<^verbatim>\<open>ValueError\<close> of line 161.
\<close>

theorem remove_dot_segments_empty_path:
  "remove_dot_segments [] = Inl IndexError \<and> remove_dot_segments [] \<noteq> Inl (InvalidPath [])"
  by (simp add: remove_dot_segments_def)

section \<open>The link sanitizer\<close>

lemma runaway_match_Some:
  "runaway_match l = Some g \<Longrightarrow> g = takeWhile (\<lambda>c. c \<notin> terminators) l"
proof (induction l arbitrary: g)
  case Nil
  then show ?case by simp
next
  case (Cons c cs)
  then show ?case by (auto split: if_splits)
qed

lemma runaway_match_None:
  "runaway_match l = None \<Longrightarrow> takeWhile (\<lambda>c. c \<notin> terminators) l = l"
proof (induction l)
  case Nil
  then show ?case by simp
next
  case (Cons c cs)
  then show ?case by (auto simp: terminators_def split: if_splits)
qed

lemma runaway_truncate:
  "(case runaway_match l of None \<Rightarrow> l | Some g \<Rightarrow> g) = takeWhile (\<lambda>c. c \<notin> terminators) l"
proof (cases "runaway_match l")
  case None
  then have "takeWhile (\<lambda>c. c \<notin> terminators) l = l" by (rule runaway_match_None)
  with None show ?thesis by (simp del: takeWhile_eq_all_conv)
next
  case (Some g)
  then show ?thesis using runaway_match_Some [of l g] by simp
qed

lemma remove_crlf_clean: "\<forall>c \<in> set t. c \<notin> terminators \<Longrightarrow> remove_crlf t = t"
  by (induction t) (auto simp: remove_crlf_def terminators_def)

lemma takeWhile_clean: "\<forall>c \<in> set (takeWhile (\<lambda>c. c \<notin> terminators) l). c \<notin> terminators"
  by (metis (mono_tags, lifting) set_takeWhileD)

lemma clean_runaway:
  assumes "length (sanitize_head link) > 300"
  shows "clean_webpage_links link =
         (let t = takeWhile (\<lambda>c. c \<notin> terminators) (sanitize_head link)
          in if length t > 300 then [] else t)"
  using assms remove_crlf_clean [OF takeWhile_clean]
  by (simp add: clean_webpage_links_def runaway_truncate Let_def)


lemma lower_chr_fixed: "c = CHR ''/'' \<or> c = CHR 0x5C \<Longrightarrow> lower_chr c = c"
  by (elim disjE; simp add: lower_chr_def)

lemma lower_chr_in_scheme:
  "c = CHR ''/'' \<or> c = CHR 0x5C \<Longrightarrow> lower_chr c \<notin> set ''https:''"
  by (elim disjE; simp add: lower_chr_def)

lemma scheme_colon_free:
  assumes "scheme_colon p" "c = CHR ''/'' \<or> c = CHR 0x5C"
  shows "c \<notin> set p"
proof
  assume "c \<in> set p"
  then have "lower_chr c \<in> set (lower p)" by (simp add: lower_def)
  moreover from assms(1) \<open>c \<in> set p\<close> have "set (lower p) \<subseteq> set ''https:''"
    by (auto simp: scheme_colon_def)
  ultimately have "lower_chr c \<in> set ''https:''" by blast
  with lower_chr_in_scheme [OF assms(2)] show False by blast
qed

lemma scheme_prefix_run:
  assumes p: "scheme_colon p" and c: "c = CHR ''/'' \<or> c = CHR 0x5C" and m: "1 \<le> m"
  shows "scheme_prefix (p @ replicate m c @ rest) = (if p = [] then None else Some p)"
proof -
  obtain k where k: "m = Suc k" using m by (cases m) auto
  have lc: "lower_chr c = c" using c by (rule lower_chr_fixed)
  from p consider "p = []" | "lower p = ''http:''" | "lower p = ''https:''"
    by (auto simp: scheme_colon_def)
  then show ?thesis
  proof cases
    case 1
    have "lower_chr c \<noteq> CHR ''h''" using lower_chr_in_scheme [OF c] by simp
    then show ?thesis using 1 k by (simp add: scheme_prefix_def lower_def)
  next
    case 2
    then have "length (lower p) = 5" by simp
    then have len: "length p = 5" by (simp add: lower_def)
    then have ne: "p \<noteq> []" by auto
    have t5: "take 5 (p @ replicate m c @ rest) = p" using len by simp
    have t6: "take 6 (p @ replicate m c @ rest) = p @ [c]" using len k by simp
    have "lower (p @ [c]) = ''http:'' @ [c]" using 2 lc by (simp add: lower_def)
    then have "lower (take 6 (p @ replicate m c @ rest)) \<noteq> ''https:''" unfolding t6 by simp
    then show ?thesis using ne 2 t5 by (simp add: scheme_prefix_def)
  next
    case 3
    then have "length (lower p) = 6" by simp
    then have len: "length p = 6" by (simp add: lower_def)
    then have ne: "p \<noteq> []" by auto
    have t6: "take 6 (p @ replicate m c @ rest) = p" using len by simp
    then show ?thesis using ne 3 by (simp add: scheme_prefix_def)
  qed
qed

lemma takeWhile_run:
  "\<not> startswith rest [c] \<Longrightarrow> takeWhile (\<lambda>x. x = c) (replicate m c @ rest) = replicate m c"
  by (induction m) (auto simp: startswith_def takeWhile_eq_Nil_iff neq_Nil_conv)

lemma rstrip_run:
  assumes "c \<notin> set p"
  shows "rstrip (\<lambda>x. x = c) (p @ replicate m c) = p"
proof -
  have "dropWhile (\<lambda>x. x = c) (replicate m c @ rev p) = rev p"
    using assms by (induction m) (auto simp: dropWhile_eq_self_iff hd_rev last_in_set)
  then show ?thesis by (simp add: rstrip_def)
qed

lemma replace_first_prefix: "old \<noteq> [] \<Longrightarrow> replace_first old new (old @ rest) = new @ rest"
  by (cases old) simp_all

lemma collapse_run_collapses:
  assumes p: "scheme_colon p" and c: "c = CHR ''/'' \<or> c = CHR 0x5C"
    and n: "1 \<le> n" "n \<le> m" and rest: "\<not> startswith rest [c]"
  shows "collapse_run c n (p @ replicate m c @ rest) = p @ ''//'' @ rest"
proof -
  let ?link = "p @ replicate m c @ rest"
  have m: "1 \<le> m" using n by simp
  have free: "c \<notin> set p" using p c by (rule scheme_colon_free)
  have run: "takeWhile (\<lambda>x. x = c) (drop (length p) ?link) = replicate m c"
    using takeWhile_run [OF rest] by simp
  have ra: "run_after c n p ?link = Some (p @ replicate m c)"
    using run n by (simp add: run_after_def)
  have mr: "match_run c n ?link = Some (p @ replicate m c)"
  proof (cases "p = []")
    case True
    then show ?thesis using ra scheme_prefix_run [OF p c m, of rest] by (simp add: match_run_def)
  next
    case False
    then show ?thesis using ra scheme_prefix_run [OF p c m, of rest] by (simp add: match_run_def)
  qed
  have ne: "p @ replicate m c \<noteq> []" using m by (cases m) auto
  have rf: "replace_first (p @ replicate m c) [] ?link = rest"
    using replace_first_prefix [OF ne, of "[]" rest] by simp
  show ?thesis
    unfolding collapse_run_def mr using rstrip_run [OF free] rf by simp
qed

lemma match_run_none:
  assumes p: "scheme_colon p" and x: "x = CHR ''/'' \<or> x = CHR 0x5C"
    and c: "c = CHR ''/'' \<or> c = CHR 0x5C" and cx: "c \<noteq> x" and m: "1 \<le> m" and n: "1 \<le> n"
  shows "match_run c n (p @ replicate m x @ rest) = None"
proof -
  let ?link = "p @ replicate m x @ rest"
  obtain k where k: "m = Suc k" using m by (cases m) auto
  have free: "c \<notin> set p" using p c by (rule scheme_colon_free)
  have r1: "run_after c n p ?link = None"
    using k cx n by (simp add: run_after_def)
  have r0: "run_after c n [] ?link = None"
  proof (cases p)
    case Nil
    then show ?thesis using k cx n by (simp add: run_after_def)
  next
    case (Cons a as)
    with free have "a \<noteq> c" by auto
    with Cons show ?thesis using n by (simp add: run_after_def)
  qed
  show ?thesis
  proof (cases "p = []")
    case True
    then show ?thesis using r0 scheme_prefix_run [OF p x m, of rest] by (simp add: match_run_def)
  next
    case False
    then show ?thesis using r0 r1 scheme_prefix_run [OF p x m, of rest] by (simp add: match_run_def)
  qed
qed

lemma collapse_run_inert:
  assumes "scheme_colon p" "x = CHR ''/'' \<or> x = CHR 0x5C" "c = CHR ''/'' \<or> c = CHR 0x5C"
    "c \<noteq> x" "1 \<le> m" "1 \<le> n"
  shows "collapse_run c n (p @ replicate m x @ rest) = p @ replicate m x @ rest"
  using match_run_none [OF assms] by (simp add: collapse_run_def)

lemma find_in_set: "find P xs = Some g \<Longrightarrow> g \<in> set xs"
  by (induction xs) (auto split: if_splits)

lemma host_backslash_inert: "CHR 0x5C \<notin> set link \<Longrightarrow> host_backslash link = link"
proof -
  assume free: "CHR 0x5C \<notin> set link"
  have "g \<noteq> CHR 0x5C" if "find P (drop k link) = Some g" for P k g
    using find_in_set [OF that] free by (metis in_set_dropD)
  then show ?thesis
    by (auto simp: host_backslash_def Let_def split: option.splits)
qed

lemma remove_crlf_inert:
  "CHR 0x0D \<notin> set link \<Longrightarrow> CHR 0x0A \<notin> set link \<Longrightarrow> remove_crlf link = link"
  by (induction link) (auto simp: remove_crlf_def)

lemma scheme_colon_no_crlf:
  assumes "scheme_colon p"
  shows "CHR 0x0D \<notin> set p \<and> CHR 0x0A \<notin> set p"
proof -
  have l: "lower_chr (CHR 0x0D) = CHR 0x0D" "lower_chr (CHR 0x0A) = CHR 0x0A"
    by (simp_all add: lower_chr_def)
  have "c \<notin> set p" if c: "c = CHR 0x0D \<or> c = CHR 0x0A" for c
  proof
    assume in_p: "c \<in> set p"
    then have "lower_chr c \<in> set (lower p)" by (simp add: lower_def)
    moreover from assms in_p have "set (lower p) \<subseteq> set ''https:''"
      by (auto simp: scheme_colon_def)
    ultimately have "lower_chr c \<in> set ''https:''" by blast
    with c l show False by auto
  qed
  then show ?thesis by blast
qed

lemma strip_ends:
  assumes "strip P s = t" "t \<noteq> []"
  shows "\<not> P (hd t) \<and> \<not> P (last t)"
proof -
  let ?l = "dropWhile P s"
  have t: "t = rev (dropWhile P (rev ?l))" using assms(1) by (simp add: strip_def rstrip_def lstrip_def)
  with assms(2) have ne: "dropWhile P (rev ?l) \<noteq> []" by simp
  then have h: "\<not> P (hd (dropWhile P (rev ?l)))" by (rule hd_dropWhile)
  then have la: "\<not> P (last t)" using t ne by (simp add: last_rev)
  from ne have lne: "?l \<noteq> []" by (metis dropWhile.simps(1) rev.simps(1))
  then have hl: "\<not> P (hd ?l)" by (rule hd_dropWhile)
  have "?l = t @ rev (takeWhile P (rev ?l))"
    using t by (metis rev_append rev_rev_ident takeWhile_dropWhile_id)
  then have "hd ?l = hd t" using assms(2) by (metis hd_append2)
  with hl la show ?thesis by simp
qed

lemma strip_fixed:
  assumes "t = [] \<or> (\<not> P (hd t) \<and> \<not> P (last t))"
  shows "strip P t = t"
proof (cases "t = []")
  case True
  then show ?thesis by (simp add: strip_def rstrip_def lstrip_def)
next
  case False
  with assms have h: "\<not> P (hd t)" and l: "\<not> P (last t)" by auto
  from False h have d: "dropWhile P t = t" by (cases t) auto
  from False l have "dropWhile P (rev t) = rev t" by (cases t rule: rev_cases) auto
  with d show ?thesis by (simp add: strip_def rstrip_def lstrip_def)
qed

lemma ctl_or_space_slash: "\<not> ctl_or_space CHR ''/''"
  by (simp add: ctl_or_space_def)

lemma strip_collapsed:
  assumes s: "strip ctl_or_space link0 = p @ replicate m c @ rest" and m: "1 \<le> m"
  shows "strip ctl_or_space (p @ ''//'' @ rest) = p @ ''//'' @ rest"
proof (rule strip_fixed, rule disjI2, rule conjI)
  let ?t = "p @ replicate m c @ rest"
  obtain k where k: "m = Suc k" using m by (cases m) auto
  have ne: "?t \<noteq> []" using k by simp
  note e = strip_ends [OF s ne]
  show "\<not> ctl_or_space (hd (p @ ''//'' @ rest))"
  proof (cases p)
    case Nil
    then show ?thesis using ctl_or_space_slash by simp
  next
    case (Cons a as)
    then show ?thesis using e by simp
  qed
  show "\<not> ctl_or_space (last (p @ ''//'' @ rest))"
  proof (cases "rest = []")
    case True
    then show ?thesis using ctl_or_space_slash by simp
  next
    case False
    then show ?thesis using e by simp
  qed
qed

lemma collapse_run_short:
  assumes p: "scheme_colon p" and r: "\<not> startswith rest ''/''"
  shows "collapse_run CHR ''/'' 3 (p @ ''//'' @ rest) = p @ ''//'' @ rest"
proof -
  let ?link = "p @ replicate 2 CHR ''/'' @ rest"
  have eq: "p @ ''//'' @ rest = ?link" by (simp add: numeral_2_eq_2)
  have free: "CHR ''/'' \<notin> set p" using scheme_colon_free [OF p, of "CHR ''/''"] by simp
  have run: "takeWhile (\<lambda>x. x = CHR ''/'') (replicate 2 CHR ''/'' @ rest) = replicate 2 CHR ''/''"
    using takeWhile_run [of rest "CHR ''/''" 2] r by simp
  have r1: "run_after CHR ''/'' 3 p ?link = None"
    using run by (simp add: run_after_def)
  have r0: "run_after CHR ''/'' 3 [] ?link = None"
  proof (cases p)
    case Nil
    then show ?thesis using run by (simp add: run_after_def)
  next
    case (Cons a as)
    with free have "a \<noteq> CHR ''/''" by auto
    with Cons show ?thesis by (simp add: run_after_def)
  qed
  have sp: "scheme_prefix ?link = (if p = [] then None else Some p)"
    using scheme_prefix_run [OF p, of "CHR ''/''" 2 rest] by simp
  have "match_run CHR ''/'' 3 ?link = None"
    using r0 r1 sp by (cases "p = []") (simp_all add: match_run_def)
  then show ?thesis unfolding eq by (simp add: collapse_run_def)
qed

lemma collapse_backslash_inert:
  assumes p: "scheme_colon p"
  shows "collapse_run (CHR 0x5C) 2 (p @ ''//'' @ rest) = p @ ''//'' @ rest"
proof -
  have "collapse_run (CHR 0x5C) 2 (p @ replicate 2 CHR ''/'' @ rest) = p @ replicate 2 CHR ''/'' @ rest"
    using collapse_run_inert [OF p, of "CHR ''/''" "CHR 0x5C" 2 2 rest] by simp
  then show ?thesis by (simp add: numeral_2_eq_2)
qed

lemma sanitize_head_slashes:
  assumes s: "strip ctl_or_space link0 = p @ replicate m CHR ''/'' @ rest"
    and p: "scheme_colon p" and m: "3 \<le> m" and r: "\<not> startswith rest ''/''"
  shows "sanitize_head link0 = host_backslash (p @ ''//'' @ rest)"
proof -
  have c1: "collapse_run CHR ''/'' 3 (strip ctl_or_space link0) = p @ ''//'' @ rest"
    unfolding s using collapse_run_collapses [OF p _ _ m r] by simp
  show ?thesis
    by (simp only: sanitize_head_def Let_def c1 collapse_backslash_inert [OF p])
qed

lemma sanitize_head_backslashes:
  assumes s: "strip ctl_or_space link0 = p @ replicate m (CHR 0x5C) @ rest"
    and p: "scheme_colon p" and m: "2 \<le> m" and r: "\<not> startswith rest [CHR 0x5C]"
  shows "sanitize_head link0 = host_backslash (p @ ''//'' @ rest)"
proof -
  have m1: "1 \<le> m" using m by simp
  have c1: "collapse_run CHR ''/'' 3 (strip ctl_or_space link0) = p @ replicate m (CHR 0x5C) @ rest"
    unfolding s using collapse_run_inert [OF p, of "CHR 0x5C" "CHR ''/''" m 3 rest] m1 by simp
  have c2: "collapse_run (CHR 0x5C) 2 (p @ replicate m (CHR 0x5C) @ rest) = p @ ''//'' @ rest"
    using collapse_run_collapses [OF p _ _ m r] by simp
  show ?thesis
    by (simp only: sanitize_head_def Let_def c1 c2)
qed

lemma sanitize_head_collapsed:
  assumes s: "strip ctl_or_space link0 = p @ replicate m c @ rest" and m: "1 \<le> m"
    and p: "scheme_colon p" and r: "\<not> startswith rest ''/''"
  shows "sanitize_head (p @ ''//'' @ rest) = host_backslash (p @ ''//'' @ rest)"
  by (simp only: sanitize_head_def Let_def strip_collapsed [OF s m] collapse_run_short [OF p r]
      collapse_backslash_inert [OF p])

lemma clean_by_head:
  "sanitize_head a = sanitize_head b \<Longrightarrow> clean_webpage_links a = clean_webpage_links b"
  by (simp add: clean_webpage_links_def)

lemma remove_crlf_append: "remove_crlf (a @ b) = remove_crlf a @ remove_crlf b"
  by (simp add: remove_crlf_def)

lemma clean_collapsed_plain:
  assumes sh: "sanitize_head link0 = host_backslash (p @ ''//'' @ rest)"
    and p: "scheme_colon p" and bs: "CHR 0x5C \<notin> set rest"
    and len: "length (p @ ''//'' @ rest) \<le> 300"
  shows "clean_webpage_links link0 = p @ ''//'' @ remove_crlf rest"
proof -
  have "CHR 0x5C \<notin> set p" using scheme_colon_free [OF p, of "CHR 0x5C"] by simp
  then have "CHR 0x5C \<notin> set (p @ ''//'' @ rest)" using bs by simp
  then have hb: "host_backslash (p @ ''//'' @ rest) = p @ ''//'' @ rest"
    by (rule host_backslash_inert)
  have rp: "remove_crlf p = p"
    using scheme_colon_no_crlf [OF p] by (simp add: remove_crlf_inert)
  have "clean_webpage_links link0 = remove_crlf (p @ ''//'' @ rest)"
    using sh hb len by (simp add: clean_webpage_links_def)
  also have "\<dots> = p @ ''//'' @ remove_crlf rest"
    unfolding remove_crlf_append rp by (simp add: remove_crlf_def)
  finally show ?thesis .
qed

text \<open>
  C8.  When the link, as it stands after lines 89-110 (\<open>sanitize_head\<close>), is longer than
  300 characters, \<^verbatim>\<open>clean_webpage_links\<close> cuts it before the first of the characters
  \<^verbatim>\<open>< > " '\<close>, carriage return, line feed and space, and returns the empty string when
  the result is still longer than 300 characters; so a link of more than 300 characters
  (400, say) that holds none of these characters gives the empty string.
\<close>

theorem clean_webpage_links_runaway:
  "(300 < length (sanitize_head link) \<longrightarrow>
      clean_webpage_links link =
        (let t = takeWhile (\<lambda>c. c \<notin> terminators) (sanitize_head link)
         in if 300 < length t then [] else t))
   \<and> (300 < length (sanitize_head link) \<and> set (sanitize_head link) \<inter> terminators = {} \<longrightarrow>
        clean_webpage_links link = [])
   \<and> clean_webpage_links (replicate 400 CHR ''a'') = []"
proof (intro conjI impI)
  assume "300 < length (sanitize_head link)"
  then show "clean_webpage_links link =
        (let t = takeWhile (\<lambda>c. c \<notin> terminators) (sanitize_head link)
         in if 300 < length t then [] else t)"
    by (rule clean_runaway)
next
  assume h: "300 < length (sanitize_head link) \<and> set (sanitize_head link) \<inter> terminators = {}"
  then have len: "300 < length (sanitize_head link)" by simp
  from h have tw: "takeWhile (\<lambda>c. c \<notin> terminators) (sanitize_head link) = sanitize_head link"
    by (simp add: disjoint_iff)
  show "clean_webpage_links link = []"
    unfolding clean_runaway [OF len] tw Let_def using len by simp
next
  show "clean_webpage_links (replicate 400 CHR ''a'') = []"
    by code_simp
qed

theorem clean_webpage_links_runaway_witness:
  "300 < length (sanitize_head (replicate 200 CHR ''a'' @ ''<'' @ replicate 200 CHR ''b''))
   \<and> clean_webpage_links (replicate 200 CHR ''a'' @ ''<'' @ replicate 200 CHR ''b'')
       = replicate 200 CHR ''a''"
proof -
  let ?l = "replicate 200 CHR ''a'' @ ''<'' @ replicate 200 CHR ''b''"
  have h: "300 < length (sanitize_head ?l)"
    by code_simp
  have "clean_webpage_links ?l =
        (let t = takeWhile (\<lambda>c. c \<notin> terminators) (sanitize_head ?l)
         in if 300 < length t then [] else t)"
    using clean_webpage_links_runaway [of ?l] h by blast
  also have "\<dots> = replicate 200 CHR ''a''"
    by code_simp
  finally show ?thesis using h by simp
qed

text \<open>
  C9, as the specification states it, fails on the code, because the steps that follow
  the collapse act on its result.  The link \<^verbatim>\<open>http:///\x\<close> is \<^verbatim>\<open>http:\<close>, a run of three
  slashes and a rest: line 97 leaves \<^verbatim>\<open>http://\x\<close>, and lines 105-110 turn the
  backslash after the \<^verbatim>\<open>//\<close> into a third slash, so the result is \<^verbatim>\<open>http:///x\<close>.  The
  link \<^verbatim>\<open>http:///\<close> followed by 400 letters is still longer than 300 characters after
  the collapse, and lines 126-132 return the empty string for it.
\<close>

theorem clean_webpage_links_run_counterexample:
  "strip ctl_or_space (''http:///'' @ [CHR 0x5C] @ ''x'')
     = ''http:'' @ replicate 3 CHR ''/'' @ [CHR 0x5C] @ ''x''
   \<and> clean_webpage_links (''http:///'' @ [CHR 0x5C] @ ''x'') = ''http:///x''
   \<and> clean_webpage_links (''http:///'' @ [CHR 0x5C] @ ''x'') \<noteq> ''http://'' @ [CHR 0x5C] @ ''x''
   \<and> strip ctl_or_space (''http:///'' @ replicate 400 CHR ''a'')
     = ''http:'' @ replicate 3 CHR ''/'' @ replicate 400 CHR ''a''
   \<and> clean_webpage_links (''http:///'' @ replicate 400 CHR ''a'') = []"
proof -
  have a: "strip ctl_or_space (''http:///'' @ [CHR 0x5C] @ ''x'')
     = ''http:'' @ replicate 3 CHR ''/'' @ [CHR 0x5C] @ ''x''"
    by code_simp
  have b: "clean_webpage_links (''http:///'' @ [CHR 0x5C] @ ''x'') = ''http:///x''"
    by code_simp
  have c: "strip ctl_or_space (''http:///'' @ replicate 400 CHR ''a'')
     = ''http:'' @ replicate 3 CHR ''/'' @ replicate 400 CHR ''a''"
    by code_simp
  have d: "clean_webpage_links (''http:///'' @ replicate 400 CHR ''a'') = []"
    by code_simp
  from a b c d show ?thesis by simp
qed

text \<open>
  C9 (amended).  Let the link, after the trimming of line 90, be \<open>p\<close>, a run and a
  rest, where \<open>p\<close> is empty or is \<^verbatim>\<open>http:\<close> or \<^verbatim>\<open>https:\<close> in any letter case.

  \<^item> If the run is of 3 or more slashes and the rest does not start with a slash,
    \<^verbatim>\<open>clean_webpage_links\<close> returns what it returns for \<open>p\<close>, \<^verbatim>\<open>//\<close> and the rest: the
    later steps (the backslash after the host name, the links longer than 300
    characters, the removal of carriage returns and line feeds) apply to the
    collapsed link.  When moreover the rest has no backslash and the collapsed link
    has at most 300 characters, the result is \<open>p\<close>, \<^verbatim>\<open>//\<close> and the rest without its
    carriage returns and line feeds.
  \<^item> If the run is of 2 or more backslashes and the rest starts with neither a
    backslash nor a slash, the result is again that for \<open>p\<close>, \<^verbatim>\<open>//\<close> and the rest; and
    when the rest has no backslash and the collapsed link has at most 300
    characters, it is \<open>p\<close>, \<^verbatim>\<open>//\<close> and the rest without its carriage returns and line
    feeds.

  In particular \<^verbatim>\<open>http:///example.com\<close> gives \<^verbatim>\<open>http://example.com\<close>.
\<close>

theorem clean_webpage_links_collapses_runs:
  "(strip ctl_or_space link0 = p @ replicate m CHR ''/'' @ rest \<and> scheme_colon p \<and> 3 \<le> m
      \<and> \<not> startswith rest ''/'' \<longrightarrow>
      clean_webpage_links link0 = clean_webpage_links (p @ ''//'' @ rest))
   \<and> (strip ctl_or_space link0 = p @ replicate m CHR ''/'' @ rest \<and> scheme_colon p \<and> 3 \<le> m
      \<and> \<not> startswith rest ''/'' \<and> CHR 0x5C \<notin> set rest
      \<and> length (p @ ''//'' @ rest) \<le> 300 \<longrightarrow>
      clean_webpage_links link0 = p @ ''//'' @ remove_crlf rest)
   \<and> (strip ctl_or_space link0 = p @ replicate m (CHR 0x5C) @ rest \<and> scheme_colon p \<and> 2 \<le> m
      \<and> \<not> startswith rest [CHR 0x5C] \<and> \<not> startswith rest ''/'' \<longrightarrow>
      clean_webpage_links link0 = clean_webpage_links (p @ ''//'' @ rest))
   \<and> (strip ctl_or_space link0 = p @ replicate m (CHR 0x5C) @ rest \<and> scheme_colon p \<and> 2 \<le> m
      \<and> CHR 0x5C \<notin> set rest \<and> length (p @ ''//'' @ rest) \<le> 300 \<longrightarrow>
      clean_webpage_links link0 = p @ ''//'' @ remove_crlf rest)
   \<and> clean_webpage_links ''http:///example.com'' = ''http://example.com''"
proof (intro conjI impI)
  assume h: "strip ctl_or_space link0 = p @ replicate m CHR ''/'' @ rest \<and> scheme_colon p \<and> 3 \<le> m
      \<and> \<not> startswith rest ''/''"
  then have s: "strip ctl_or_space link0 = p @ replicate m CHR ''/'' @ rest"
    and p: "scheme_colon p" and m: "3 \<le> m" and r: "\<not> startswith rest ''/''" by simp_all
  have m1: "1 \<le> m" using m by simp
  show "clean_webpage_links link0 = clean_webpage_links (p @ ''//'' @ rest)"
    using sanitize_head_slashes [OF s p m r] sanitize_head_collapsed [OF s m1 p r]
    by (intro clean_by_head) simp
next
  assume h: "strip ctl_or_space link0 = p @ replicate m CHR ''/'' @ rest \<and> scheme_colon p \<and> 3 \<le> m
      \<and> \<not> startswith rest ''/'' \<and> CHR 0x5C \<notin> set rest
      \<and> length (p @ ''//'' @ rest) \<le> 300"
  then have s: "strip ctl_or_space link0 = p @ replicate m CHR ''/'' @ rest"
    and p: "scheme_colon p" and m: "3 \<le> m" and r: "\<not> startswith rest ''/''"
    and bs: "CHR 0x5C \<notin> set rest" and len: "length (p @ ''//'' @ rest) \<le> 300" by simp_all
  show "clean_webpage_links link0 = p @ ''//'' @ remove_crlf rest"
    using clean_collapsed_plain [OF sanitize_head_slashes [OF s p m r] p bs len] .
next
  assume h: "strip ctl_or_space link0 = p @ replicate m (CHR 0x5C) @ rest \<and> scheme_colon p \<and> 2 \<le> m
      \<and> \<not> startswith rest [CHR 0x5C] \<and> \<not> startswith rest ''/''"
  then have s: "strip ctl_or_space link0 = p @ replicate m (CHR 0x5C) @ rest"
    and p: "scheme_colon p" and m: "2 \<le> m" and r: "\<not> startswith rest [CHR 0x5C]"
    and r': "\<not> startswith rest ''/''" by simp_all
  have m1: "1 \<le> m" using m by simp
  show "clean_webpage_links link0 = clean_webpage_links (p @ ''//'' @ rest)"
    using sanitize_head_backslashes [OF s p m r] sanitize_head_collapsed [OF s m1 p r']
    by (intro clean_by_head) simp
next
  assume h: "strip ctl_or_space link0 = p @ replicate m (CHR 0x5C) @ rest \<and> scheme_colon p \<and> 2 \<le> m
      \<and> CHR 0x5C \<notin> set rest \<and> length (p @ ''//'' @ rest) \<le> 300"
  then have s: "strip ctl_or_space link0 = p @ replicate m (CHR 0x5C) @ rest"
    and p: "scheme_colon p" and m: "2 \<le> m"
    and bs: "CHR 0x5C \<notin> set rest" and len: "length (p @ ''//'' @ rest) \<le> 300" by simp_all
  have r: "\<not> startswith rest [CHR 0x5C]" using bs by (cases rest) (auto simp: startswith_def)
  show "clean_webpage_links link0 = p @ ''//'' @ remove_crlf rest"
    using clean_collapsed_plain [OF sanitize_head_backslashes [OF s p m r] p bs len] .
next
  show "clean_webpage_links ''http:///example.com'' = ''http://example.com''"
    by code_simp
qed

theorem clean_webpage_links_collapses_runs_witness:
  "strip ctl_or_space '' HTTP:////x/y '' = ''HTTP:'' @ replicate 4 CHR ''/'' @ ''x/y''
   \<and> scheme_colon ''HTTP:'' \<and> (3::nat) \<le> 4 \<and> \<not> startswith ''x/y'' ''/''
   \<and> CHR 0x5C \<notin> set ''x/y'' \<and> length (''HTTP:'' @ ''//'' @ ''x/y'') \<le> 300
   \<and> clean_webpage_links '' HTTP:////x/y '' = clean_webpage_links ''HTTP://x/y''
   \<and> clean_webpage_links '' HTTP:////x/y '' = ''HTTP://x/y''
   \<and> strip ctl_or_space [CHR 0x5C, CHR 0x5C, CHR ''x''] = [] @ replicate 2 (CHR 0x5C) @ ''x''
   \<and> scheme_colon [] \<and> (2::nat) \<le> 2
   \<and> \<not> startswith ''x'' [CHR 0x5C] \<and> \<not> startswith ''x'' ''/''
   \<and> CHR 0x5C \<notin> set ''x'' \<and> length ([] @ ''//'' @ ''x'') \<le> 300
   \<and> clean_webpage_links [CHR 0x5C, CHR 0x5C, CHR ''x''] = clean_webpage_links ''//x''
   \<and> clean_webpage_links [CHR 0x5C, CHR 0x5C, CHR ''x''] = ''//x''"
proof -
  have a1: "strip ctl_or_space '' HTTP:////x/y '' = ''HTTP:'' @ replicate 4 CHR ''/'' @ ''x/y''"
    by code_simp
  have a2: "scheme_colon ''HTTP:''" by (simp add: scheme_colon_def py_eval)
  have a3: "\<not> startswith ''x/y'' ''/''" by (simp add: startswith_def)
  have a4: "CHR 0x5C \<notin> set ''x/y''" by simp
  have a5: "length (''HTTP:'' @ ''//'' @ ''x/y'') \<le> 300" by simp
  have a6: "(3::nat) \<le> 4" by simp
  have a: "clean_webpage_links '' HTTP:////x/y '' = clean_webpage_links (''HTTP:'' @ ''//'' @ ''x/y'')"
    using clean_webpage_links_collapses_runs [of "'' HTTP:////x/y ''" "''HTTP:''" 4 "''x/y''",
        THEN conjunct1] a1 a2 a3 a6 by blast
  have a': "clean_webpage_links '' HTTP:////x/y '' = ''HTTP:'' @ ''//'' @ remove_crlf ''x/y''"
    using clean_webpage_links_collapses_runs [of "'' HTTP:////x/y ''" "''HTTP:''" 4 "''x/y''",
        THEN conjunct2, THEN conjunct1] a1 a2 a3 a4 a5 a6 by blast
  have b1: "strip ctl_or_space [CHR 0x5C, CHR 0x5C, CHR ''x''] = [] @ replicate 2 (CHR 0x5C) @ ''x''"
    by code_simp
  have b2: "scheme_colon []" by (simp add: scheme_colon_def)
  have b3: "\<not> startswith ''x'' [CHR 0x5C]" "\<not> startswith ''x'' ''/''"
    by (simp_all add: startswith_def)
  have b4: "CHR 0x5C \<notin> set ''x''" by simp
  have b5: "length ([] @ ''//'' @ ''x'') \<le> 300" by simp
  have b6: "(2::nat) \<le> 2" by simp
  have b: "clean_webpage_links [CHR 0x5C, CHR 0x5C, CHR ''x''] = clean_webpage_links ([] @ ''//'' @ ''x'')"
    using clean_webpage_links_collapses_runs [of "[CHR 0x5C, CHR 0x5C, CHR ''x'']" "[]" 2 "''x''",
        THEN conjunct2, THEN conjunct2, THEN conjunct1] b1 b2 b3 b6 by blast
  have b': "clean_webpage_links [CHR 0x5C, CHR 0x5C, CHR ''x''] = [] @ ''//'' @ remove_crlf ''x''"
    using clean_webpage_links_collapses_runs [of "[CHR 0x5C, CHR 0x5C, CHR ''x'']" "[]" 2 "''x''",
        THEN conjunct2, THEN conjunct2, THEN conjunct2, THEN conjunct1] b1 b2 b4 b5 b6 by blast
  have rc: "remove_crlf ''x/y'' = ''x/y''" "remove_crlf ''x'' = ''x''"
    by (simp_all add: remove_crlf_def)
  have a0: "clean_webpage_links '' HTTP:////x/y '' = clean_webpage_links ''HTTP://x/y''"
    using a by simp
  have a'': "clean_webpage_links '' HTTP:////x/y '' = ''HTTP://x/y''"
    using a' rc by simp
  have b0: "clean_webpage_links [CHR 0x5C, CHR 0x5C, CHR ''x''] = clean_webpage_links ''//x''"
    using b by simp
  have b'': "clean_webpage_links [CHR 0x5C, CHR 0x5C, CHR ''x''] = ''//x''"
    using b' rc by simp
  show ?thesis
    by (intro conjI a1 a2 a3 a4 a5 a6 a0 a'' b1 b2 b3 b4 b5 b6 b0 b'')
qed

section \<open>The constructor and the redirect classifier on examples\<close>

lemma URL_example_unnormalized:
  "url_of (URL_init example_env ''http://example.com/%4%31'' NoBase False)
   = Inr ''http://example.com/%41''"
  by code_simp

lemma URL_example_renormalized:
  "url_of (URL_init example_env ''http://example.com/%41'' NoBase False)
   = Inr ''http://example.com/A''"
  by code_simp

lemma canonicalization_example:
  "safe_url_canonicalization example_env ''http://example.com/%41''
   = Inr (''http://example.com/A'', [])"
  by code_simp

text \<open>
  C1.  The class \<^verbatim>\<open>URL\<close> documents itself as idempotent, and is not: the whole-url pass
  of \<^verbatim>\<open>unquote\<close> turns \<^verbatim>\<open>%4%31\<close> into \<^verbatim>\<open>%41\<close>, which the same pass turns into
  \<^verbatim>\<open>A\<close> when the canonical url is canonicalized again.
\<close>

theorem URL_not_idempotent:
  "url_of (URL_init example_env ''http://example.com/%4%31'' NoBase False)
     = Inr ''http://example.com/%41''
   \<and> url_of (URL_init example_env ''http://example.com/%41'' NoBase False)
     = Inr ''http://example.com/A''
   \<and> safe_url_canonicalization example_env ''http://example.com/%41''
     = Inr (''http://example.com/A'', [])"
  using URL_example_unnormalized URL_example_renormalized canonicalization_example by simp

lemma redirect_example_same:
  "redirect_between example_env ''http://example.com'' ''http://example.com/'' = Inr (Some ''same'')"
  by code_simp

lemma redirect_example_addslash:
  "redirect_between example_env ''http://example.com/a'' ''http://example.com/a/''
   = Inr (Some ''addslash'')"
  by code_simp

lemma redirect_example_tohttps:
  "redirect_between example_env ''http://example.com'' ''https://example.com''
   = Inr (Some ''tohttps'')"
  by code_simp

lemma redirect_example_tononwww:
  "redirect_between example_env ''http://www.example.com'' ''http://example.com''
   = Inr (Some ''tononwww'')"
  by code_simp

text \<open>
  C7, as the specification states it, fails on the code: the URL objects of
  \<^verbatim>\<open>http://example.com\<close> and \<^verbatim>\<open>http://example.com/\<close> have the same canonical string
  (an empty path becomes \<^verbatim>\<open>/\<close>), and the redirect between them is classified \<^verbatim>\<open>same\<close>.
\<close>

theorem special_redirect_addslash_counterexample:
  "redirect_between example_env ''http://example.com'' ''http://example.com/'' = Inr (Some ''same'')
   \<and> redirect_between example_env ''http://example.com'' ''http://example.com/''
       \<noteq> Inr (Some ''addslash'')"
  using redirect_example_same by simp

text \<open>
  C7 (amended).  \<^verbatim>\<open>special_redirect\<close> returns \<^verbatim>\<open>None\<close> for every two URL objects whose
  canonical strings differ in length by more than 5.  From \<^verbatim>\<open>http://example.com\<close> to
  \<^verbatim>\<open>http://example.com/\<close> it returns \<^verbatim>\<open>same\<close>, from \<^verbatim>\<open>http://example.com/a\<close> to
  \<^verbatim>\<open>http://example.com/a/\<close> it returns \<^verbatim>\<open>addslash\<close>, from \<^verbatim>\<open>http://example.com\<close> to
  \<^verbatim>\<open>https://example.com\<close> it returns \<^verbatim>\<open>tohttps\<close>, and from \<^verbatim>\<open>http://www.example.com\<close>
  to \<^verbatim>\<open>http://example.com\<close> it returns \<^verbatim>\<open>tononwww\<close>.
\<close>

theorem special_redirect_classifies:
  "(5 < abs (int (length (u_url url)) - int (length (u_url next_url))) \<longrightarrow>
      special_redirect url next_url = None)
   \<and> redirect_between example_env ''http://example.com'' ''http://example.com/''
       = Inr (Some ''same'')
   \<and> redirect_between example_env ''http://example.com/a'' ''http://example.com/a/''
       = Inr (Some ''addslash'')
   \<and> redirect_between example_env ''http://example.com'' ''https://example.com''
       = Inr (Some ''tohttps'')
   \<and> redirect_between example_env ''http://www.example.com'' ''http://example.com''
       = Inr (Some ''tononwww'')"
  using redirect_example_same redirect_example_addslash redirect_example_tohttps
    redirect_example_tononwww
  by (simp add: special_redirect_def Let_def)

lemma URL_example_short:
  "URL_init example_env ''http://a.com/'' NoBase False =
   Inr \<lparr>u_url = ''http://a.com/'',
        u_urlsplit = \<lparr>s_scheme = ''http'', s_netloc = ''a.com'', s_path = ''/'',
                       s_query = [], s_fragment = []\<rparr>,
        u_netloc = ''a.com'', u_hostname = ''a.com'', u_hostname_without_www = ''a.com'',
        u_surt = [], u_registered_domain = [], u_original_frag = None\<rparr>"
  by code_simp

lemma URL_example_long:
  "URL_init example_env ''http://a.com/index.html'' NoBase False =
   Inr \<lparr>u_url = ''http://a.com/index.html'',
        u_urlsplit = \<lparr>s_scheme = ''http'', s_netloc = ''a.com'', s_path = ''/index.html'',
                       s_query = [], s_fragment = []\<rparr>,
        u_netloc = ''a.com'', u_hostname = ''a.com'', u_hostname_without_www = ''a.com'',
        u_surt = [], u_registered_domain = [], u_original_frag = None\<rparr>"
  by code_simp

theorem special_redirect_classifies_witness:
  "redirect_between example_env ''http://a.com/'' ''http://a.com/index.html'' = Inr None"
proof -
  let ?x = "\<lparr>u_url = ''http://a.com/'',
        u_urlsplit = \<lparr>s_scheme = ''http'', s_netloc = ''a.com'', s_path = ''/'',
                       s_query = [], s_fragment = []\<rparr>,
        u_netloc = ''a.com'', u_hostname = ''a.com'', u_hostname_without_www = ''a.com'',
        u_surt = [], u_registered_domain = [], u_original_frag = None\<rparr>"
  let ?y = "\<lparr>u_url = ''http://a.com/index.html'',
        u_urlsplit = \<lparr>s_scheme = ''http'', s_netloc = ''a.com'', s_path = ''/index.html'',
                       s_query = [], s_fragment = []\<rparr>,
        u_netloc = ''a.com'', u_hostname = ''a.com'', u_hostname_without_www = ''a.com'',
        u_surt = [], u_registered_domain = [], u_original_frag = None\<rparr>"
  have h: "5 < abs (int (length (u_url ?x)) - int (length (u_url ?y)))" by simp
  have "special_redirect ?x ?y = None"
    using special_redirect_classifies [of ?x ?y] h by blast
  then show ?thesis
    by (simp add: redirect_between_def bindE_def URL_example_short URL_example_long)
qed

text \<open>
  C10, as stated, fails on the code for the empty base string: \<^verbatim>\<open>if urljoin:\<close> treats it
  as no base, while the URL object made from it is a base.
\<close>

lemma URL_example_empty:
  "URL_init example_env [] NoBase False =
   Inr \<lparr>u_url = ''/'',
        u_urlsplit = \<lparr>s_scheme = [], s_netloc = [], s_path = ''/'', s_query = [], s_fragment = []\<rparr>,
        u_netloc = [], u_hostname = [], u_hostname_without_www = [],
        u_surt = [], u_registered_domain = [], u_original_frag = None\<rparr>"
  by code_simp

lemma URL_example_empty_base_string:
  "url_of (URL_init example_env ''/x'' (BaseStr []) False) = Inr ''/x''"
  by code_simp

lemma URL_example_empty_base_object:
  "URL_init example_env ''/x''
     (BaseURL \<lparr>u_url = ''/'',
        u_urlsplit = \<lparr>s_scheme = [], s_netloc = [], s_path = ''/'', s_query = [], s_fragment = []\<rparr>,
        u_netloc = [], u_hostname = [], u_hostname_without_www = [],
        u_surt = [], u_registered_domain = [], u_original_frag = None\<rparr>) False
   = Inl (InvalidPath '':///x'')"
  by code_simp

theorem URL_empty_base_counterexample:
  "URL_init example_env [] NoBase False =
     Inr \<lparr>u_url = ''/'',
        u_urlsplit = \<lparr>s_scheme = [], s_netloc = [], s_path = ''/'', s_query = [], s_fragment = []\<rparr>,
        u_netloc = [], u_hostname = [], u_hostname_without_www = [],
        u_surt = [], u_registered_domain = [], u_original_frag = None\<rparr>
   \<and> url_of (URL_init example_env ''/x'' (BaseStr []) False) = Inr ''/x''
   \<and> URL_init example_env ''/x''
       (BaseURL \<lparr>u_url = ''/'',
          u_urlsplit = \<lparr>s_scheme = [], s_netloc = [], s_path = ''/'', s_query = [], s_fragment = []\<rparr>,
          u_netloc = [], u_hostname = [], u_hostname_without_www = [],
          u_surt = [], u_registered_domain = [], u_original_frag = None\<rparr>) False
     = Inl (InvalidPath '':///x'')"
  using URL_example_empty URL_example_empty_base_string URL_example_empty_base_object by simp

text \<open>
  C10 (amended).  For every link and every non-empty base string \<open>b\<close> such that
  \<^verbatim>\<open>URL(b)\<close> constructs a URL object, the constructor gives the same result, an error or
  a URL object with every field equal, for the base \<open>b\<close> and for the base \<^verbatim>\<open>URL(b)\<close>.
\<close>

theorem URL_base_string_or_object:
  "b \<noteq> [] \<and> URL_init env b NoBase False = Inr base \<longrightarrow>
     URL_init env url (BaseStr b) seed = URL_init env url (BaseURL base) seed"
  by (simp add: URL_init_def URL_resolved_def bindE_def Let_def)

lemma URL_example_base:
  "URL_init example_env ''http://example.com/a'' NoBase False =
   Inr \<lparr>u_url = ''http://example.com/a'',
        u_urlsplit = \<lparr>s_scheme = ''http'', s_netloc = ''example.com'', s_path = ''/a'',
                       s_query = [], s_fragment = []\<rparr>,
        u_netloc = ''example.com'', u_hostname = ''example.com'',
        u_hostname_without_www = ''example.com'',
        u_surt = [], u_registered_domain = [], u_original_frag = None\<rparr>"
  by code_simp

lemma URL_example_joined:
  "url_of (URL_init example_env ''/x?y''
     (BaseURL \<lparr>u_url = ''http://example.com/a'',
        u_urlsplit = \<lparr>s_scheme = ''http'', s_netloc = ''example.com'', s_path = ''/a'',
                       s_query = [], s_fragment = []\<rparr>,
        u_netloc = ''example.com'', u_hostname = ''example.com'',
        u_hostname_without_www = ''example.com'',
        u_surt = [], u_registered_domain = [], u_original_frag = None\<rparr>) False)
   = Inr ''http://example.com/x?y''"
  by code_simp

theorem URL_base_string_or_object_witness:
  "''http://example.com/a'' \<noteq> []
   \<and> url_of (URL_init example_env ''http://example.com/a'' NoBase False) = Inr ''http://example.com/a''
   \<and> url_of (URL_init example_env ''/x?y'' (BaseStr ''http://example.com/a'') False)
       = Inr ''http://example.com/x?y''"
proof -
  let ?b = "\<lparr>u_url = ''http://example.com/a'',
        u_urlsplit = \<lparr>s_scheme = ''http'', s_netloc = ''example.com'', s_path = ''/a'',
                       s_query = [], s_fragment = []\<rparr>,
        u_netloc = ''example.com'', u_hostname = ''example.com'',
        u_hostname_without_www = ''example.com'',
        u_surt = [], u_registered_domain = [], u_original_frag = None\<rparr>"
  have h1: "''http://example.com/a'' \<noteq> []" by simp
  have h2: "URL_init example_env ''http://example.com/a'' NoBase False = Inr ?b"
    by (rule URL_example_base)
  have "URL_init example_env ''/x?y'' (BaseStr ''http://example.com/a'') False
        = URL_init example_env ''/x?y'' (BaseURL ?b) False"
    using URL_base_string_or_object [of "''http://example.com/a''" example_env ?b "''/x?y''" False]
      h1 h2 by blast
  then show ?thesis using URL_example_joined h2 by (simp add: url_of_def bindE_def)
qed

section \<open>Every URL object: path, fragment and canonical string\<close>

lemma lower_chr_hash: "lower_chr c = CHR ''#'' \<Longrightarrow> c = CHR ''#''"
proof (cases "map_of (zip ''ABCDEFGHIJKLMNOPQRSTUVWXYZ'' ''abcdefghijklmnopqrstuvwxyz'') c")
  case None
  then show "lower_chr c = CHR ''#'' \<Longrightarrow> c = CHR ''#''" by (simp add: lower_chr_def)
next
  case (Some d)
  then have "d \<in> set ''abcdefghijklmnopqrstuvwxyz''"
    by (meson map_of_SomeD set_zip_rightD)
  then have "d \<noteq> CHR ''#''" by auto
  with Some show "lower_chr c = CHR ''#'' \<Longrightarrow> c = CHR ''#''" by (simp add: lower_chr_def)
qed

lemma lower_hash_free:
  assumes "CHR ''#'' \<notin> set s"
  shows "CHR ''#'' \<notin> set (lower s)"
proof
  assume "CHR ''#'' \<in> set (lower s)"
  then obtain c where c: "c \<in> set s" "lower_chr c = CHR ''#''" by (auto simp: lower_def)
  from lower_chr_hash [OF c(2)] c(1) assms show False by simp
qed

lemma split_scheme_hash_free: "CHR ''#'' \<notin> set (fst (split_scheme u))"
proof (cases "find_sub '':'' u")
  case None
  then show ?thesis by (simp add: split_scheme_def)
next
  case (Some i)
  show ?thesis
  proof (cases "i > 0 \<and> ascii_alpha (hd u) \<and> (\<forall>c \<in> set (take i u). c \<in> set scheme_chars)")
    case True
    moreover have "CHR ''#'' \<notin> set scheme_chars" by (simp add: scheme_chars_def)
    ultimately have "CHR ''#'' \<notin> set (take i u)" by blast
    then show ?thesis using Some True lower_hash_free by (simp add: split_scheme_def)
  next
    case False
    then show ?thesis using Some by (auto simp: split_scheme_def)
  qed
qed

lemma split_scheme_rest_subset: "set (snd (split_scheme u)) \<subseteq> set u"
  by (auto simp: split_scheme_def split: option.splits dest: in_set_dropD)

lemma splitnetloc_hash_free: "CHR ''#'' \<notin> set (fst (splitnetloc u))"
  by (auto simp: splitnetloc_def dest: set_takeWhileD)

lemma split_once_subset: "set (fst (split_once c s)) \<subseteq> set s \<and> set (snd (split_once c s)) \<subseteq> set s"
  by (auto simp: split_once_def dest: set_takeWhileD set_dropWhileD in_set_dropD)

lemma split_once_fst_free: "c \<notin> set (fst (split_once c s))"
  by (auto simp: split_once_def dest: set_takeWhileD)

lemma urlsplit_hash_free:
  assumes "urllib_urlsplit env u = Inr sp"
  shows "CHR ''#'' \<notin> set (s_scheme sp) \<and> CHR ''#'' \<notin> set (s_netloc sp)
         \<and> CHR ''#'' \<notin> set (s_path sp) \<and> CHR ''#'' \<notin> set (s_query sp)"
proof -
  define u2 where "u2 = filter (\<lambda>c. c \<notin> {CHR 0x09, CHR 0x0D, CHR 0x0A}) (lstrip ctl_or_space u)"
  define u3 where "u3 = snd (split_scheme u2)"
  define nl where "nl = (if take 2 u3 = ''//'' then splitnetloc u3 else ([], u3))"
  define fr where "fr = (if CHR ''#'' \<in> set (snd nl) then split_once CHR ''#'' (snd nl) else (snd nl, []))"
  define qu where "qu = (if CHR ''?'' \<in> set (fst fr) then split_once CHR ''?'' (fst fr) else (fst fr, []))"
  have sp: "sp = \<lparr>s_scheme = fst (split_scheme u2), s_netloc = fst nl, s_path = fst qu,
                  s_query = snd qu, s_fragment = snd fr\<rparr>"
    using assms unfolding urllib_urlsplit_def u2_def u3_def nl_def fr_def qu_def
    by (simp add: Let_def case_prod_beta split: if_splits)
  have n: "CHR ''#'' \<notin> set (fst nl)"
    using splitnetloc_hash_free by (simp add: nl_def)
  have f: "CHR ''#'' \<notin> set (fst fr)"
    using split_once_fst_free by (simp add: fr_def)
  have q: "set (fst qu) \<subseteq> set (fst fr) \<and> set (snd qu) \<subseteq> set (fst fr)"
    using split_once_subset by (simp add: qu_def)
  show ?thesis using sp split_scheme_hash_free n f q by auto
qed

lemma urlunsplit_hash_free:
  assumes "CHR ''#'' \<notin> set (s_scheme c)" "CHR ''#'' \<notin> set (s_netloc c)"
    "CHR ''#'' \<notin> set (s_path c)" "CHR ''#'' \<notin> set (s_query c)" "s_fragment c = []"
  shows "CHR ''#'' \<notin> set (urllib_urlunsplit c)"
  using assms by (simp add: urllib_urlunsplit_def Let_def)

lemma URL_build_fields:
  assumes "URL_build env r = Inr x"
  shows "\<exists>u frag sp n.
           safe_url_canonicalization env r = Inr (u, frag)
           \<and> urllib_urlsplit env u = Inr sp
           \<and> netloc_to_punycanon env (s_scheme sp) (s_netloc sp) = Inr n
           \<and> u_urlsplit x = \<lparr>s_scheme = s_scheme sp, s_netloc = n,
                 s_path = (if s_path sp = [] then ''/'' else s_path sp),
                 s_query = s_query sp, s_fragment = []\<rparr>
           \<and> u_url x = urllib_urlunsplit (u_urlsplit x)
           \<and> u_original_frag x = (if frag = [] then None else Some frag)"
proof -
  note defs = URL_build_def bindE_def Let_def
  obtain u frag where c: "safe_url_canonicalization env r = Inr (u, frag)"
    using assms by (cases "safe_url_canonicalization env r") (auto simp: defs)
  obtain sp where s: "urllib_urlsplit env u = Inr sp"
    using assms c by (cases "urllib_urlsplit env u") (auto simp: defs)
  obtain n where n: "netloc_to_punycanon env (s_scheme sp) (s_netloc sp) = Inr n"
    using assms c s by (cases "netloc_to_punycanon env (s_scheme sp) (s_netloc sp)") (auto simp: defs)
  obtain h where h: "hostname_to_punycanon env n = Inr h"
    using assms c s n by (cases "hostname_to_punycanon env n") (auto simp: defs)
  obtain w where w: "discard_www_from_hostname env h = Inr w"
    using assms c s n h by (cases "discard_www_from_hostname env h") (auto simp: defs)
  obtain k where k: "surt_surt env u = Inr k"
    using assms c s n h w by (cases "surt_surt env u") (auto simp: defs)
  let ?split = "\<lparr>s_scheme = s_scheme sp, s_netloc = n,
                 s_path = (if s_path sp = [] then ''/'' else s_path sp),
                 s_query = s_query sp, s_fragment = []\<rparr>"
  obtain d where d: "tld_registered_domain env (urllib_urlunsplit ?split) = Inr d"
    using assms c s n h w k
    by (cases "tld_registered_domain env (urllib_urlunsplit ?split)") (auto simp: defs)
  have "x = \<lparr>u_url = urllib_urlunsplit ?split, u_urlsplit = ?split, u_netloc = n,
               u_hostname = h, u_hostname_without_www = w, u_surt = k,
               u_registered_domain = d,
               u_original_frag = (if frag = [] then None else Some frag)\<rparr>"
    using assms c s n h w k d by (auto simp: defs)
  then have "u_urlsplit x = ?split \<and> u_url x = urllib_urlunsplit (u_urlsplit x)
             \<and> u_original_frag x = (if frag = [] then None else Some frag)" by simp
  with c s n show ?thesis by blast
qed

lemma URL_init_built:
  "URL_init env url0 urljoin seed = Inr x \<Longrightarrow>
     \<exists>r. URL_resolved env url0 urljoin seed = Inr r \<and> URL_build env r = Inr x"
  by (auto simp: URL_init_def bindE_def split: sum.splits)

lemma example_env_hash_free: "netloc_hash_free example_env"
proof -
  have "CHR ''#'' \<notin> set r"
    if n: "CHR ''#'' \<notin> set n" and r: "netloc_to_punycanon example_env scheme n = Inr r"
    for scheme n r
  proof -
    have l: "CHR ''#'' \<notin> set (lower n)" using n by (rule lower_hash_free)
    from r have "r = lower n \<or> r = take (length (lower n) - 3) (lower n)
                 \<or> r = take (length (lower n) - 4) (lower n)"
      by (auto simp: example_env_def Let_def split: if_splits)
    with l show ?thesis by (auto dest: in_set_takeD)
  qed
  then show ?thesis unfolding netloc_hash_free_def by blast
qed

text \<open>
  C5.  For every successfully constructed URL object the path of \<^verbatim>\<open>urlsplit\<close> is not
  empty and its fragment is empty; the canonical string contains no \<^verbatim>\<open>#\<close>, given that
  the netloc collaborator, whose code is not in \<^verbatim>\<open>urls.py\<close>, puts no \<^verbatim>\<open>#\<close> into a
  netloc that has none.
\<close>

theorem URL_path_and_fragment:
  "URL_init env url0 urljoin seed = Inr x \<longrightarrow>
     s_path (u_urlsplit x) \<noteq> [] \<and> s_fragment (u_urlsplit x) = []
     \<and> (netloc_hash_free env \<longrightarrow> CHR ''#'' \<notin> set (u_url x))"
proof
  assume "URL_init env url0 urljoin seed = Inr x"
  then obtain r where "URL_build env r = Inr x" using URL_init_built by blast
  from URL_build_fields [OF this] obtain u frag sp n where
    sp: "urllib_urlsplit env u = Inr sp"
    and n: "netloc_to_punycanon env (s_scheme sp) (s_netloc sp) = Inr n"
    and split: "u_urlsplit x = \<lparr>s_scheme = s_scheme sp, s_netloc = n,
                 s_path = (if s_path sp = [] then ''/'' else s_path sp),
                 s_query = s_query sp, s_fragment = []\<rparr>"
    and url: "u_url x = urllib_urlunsplit (u_urlsplit x)"
    by blast
  note free = urlsplit_hash_free [OF sp]
  have path: "s_path (u_urlsplit x) \<noteq> []" using split by simp
  have frag: "s_fragment (u_urlsplit x) = []" using split by simp
  have "CHR ''#'' \<notin> set (u_url x)" if "netloc_hash_free env"
  proof -
    from that n free have "CHR ''#'' \<notin> set n" unfolding netloc_hash_free_def by blast
    then show ?thesis
      unfolding url using free split by (intro urlunsplit_hash_free) simp_all
  qed
  with path frag show "s_path (u_urlsplit x) \<noteq> [] \<and> s_fragment (u_urlsplit x) = []
     \<and> (netloc_hash_free env \<longrightarrow> CHR ''#'' \<notin> set (u_url x))" by blast
qed

lemma URL_example_query:
  "URL_init example_env ''HTTP://Example.com?q=1#frag'' NoBase False =
   Inr \<lparr>u_url = ''http://example.com/?q=1'',
        u_urlsplit = \<lparr>s_scheme = ''http'', s_netloc = ''example.com'', s_path = ''/'',
                       s_query = ''q=1'', s_fragment = []\<rparr>,
        u_netloc = ''example.com'', u_hostname = ''example.com'',
        u_hostname_without_www = ''example.com'', u_surt = [],
        u_registered_domain = [], u_original_frag = Some ''#frag''\<rparr>"
  by code_simp

theorem URL_path_and_fragment_witness:
  "url_of (URL_init example_env ''HTTP://Example.com?q=1#frag'' NoBase False)
     = Inr ''http://example.com/?q=1''
   \<and> netloc_hash_free example_env
   \<and> CHR ''#'' \<notin> set ''http://example.com/?q=1''"
proof -
  let ?x = "\<lparr>u_url = ''http://example.com/?q=1'',
        u_urlsplit = \<lparr>s_scheme = ''http'', s_netloc = ''example.com'', s_path = ''/'',
                       s_query = ''q=1'', s_fragment = []\<rparr>,
        u_netloc = ''example.com'', u_hostname = ''example.com'',
        u_hostname_without_www = ''example.com'', u_surt = [],
        u_registered_domain = [], u_original_frag = Some ''#frag''\<rparr>"
  have h1: "URL_init example_env ''HTTP://Example.com?q=1#frag'' NoBase False = Inr ?x"
    by (rule URL_example_query)
  have h2: "netloc_hash_free example_env" by (rule example_env_hash_free)
  have "CHR ''#'' \<notin> set (u_url ?x)"
    using URL_path_and_fragment [of example_env "''HTTP://Example.com?q=1#frag''" NoBase False ?x]
      h1 h2 by blast
  then show ?thesis using h1 h2 by (simp add: url_of_def bindE_def)
qed

section \<open>The fragment kept by the constructor\<close>

lemma after_hash_Cons: "after_hash (c # s) = (if c = CHR ''#'' then s else after_hash s)"
  by (simp add: after_hash_def)

lemma after_hash_Nil: "after_hash [] = []"
  by (simp add: after_hash_def)

lemma after_hash_free_prefix: "CHR ''#'' \<notin> set p \<Longrightarrow> after_hash (p @ s) = after_hash s"
  by (induction p) (auto simp: after_hash_Cons)

lemma after_hash_filter:
  "P CHR ''#'' \<Longrightarrow> after_hash (filter P s) = filter P (after_hash s)"
  by (induction s) (auto simp: after_hash_Cons after_hash_Nil)

lemma after_hash_dropWhile:
  "\<not> P CHR ''#'' \<Longrightarrow> after_hash (dropWhile P s) = after_hash s"
proof -
  assume h: "\<not> P CHR ''#''"
  then have "CHR ''#'' \<notin> set (takeWhile P s)" by (auto dest: set_takeWhileD)
  from after_hash_free_prefix [OF this, of "dropWhile P s"] show ?thesis by simp
qed

lemma find_sub_char:
  "find_sub [c] s = Some i \<Longrightarrow> i < length s \<and> s ! i = c"
proof (induction s arbitrary: i)
  case Nil
  then show ?case by simp
next
  case (Cons x xs)
  show ?case
  proof (cases "x = c")
    case True
    with Cons.prems show ?thesis by simp
  next
    case False
    with Cons.prems obtain j where j: "find_sub [c] xs = Some j" "i = Suc j" by auto
    from Cons.IH [OF j(1)] j(2) show ?thesis by simp
  qed
qed

lemma after_hash_split_scheme: "after_hash (snd (split_scheme u)) = after_hash u"
proof (cases "find_sub '':'' u")
  case None
  then show ?thesis by (simp add: split_scheme_def)
next
  case (Some i)
  show ?thesis
  proof (cases "i > 0 \<and> ascii_alpha (hd u) \<and> (\<forall>c \<in> set (take i u). c \<in> set scheme_chars)")
    case True
    moreover have "CHR ''#'' \<notin> set scheme_chars" by (simp add: scheme_chars_def)
    ultimately have a: "CHR ''#'' \<notin> set (take i u)" by blast
    from find_sub_char [OF Some] have i: "i < length u" "u ! i = CHR '':''" by simp_all
    then have "take (i + 1) u = take i u @ '':''" by (simp add: take_Suc_conv_app_nth)
    with a have "CHR ''#'' \<notin> set (take (i + 1) u)" by simp
    from after_hash_free_prefix [OF this, of "drop (i + 1) u"]
    have "after_hash (drop (i + 1) u) = after_hash u" by simp
    then show ?thesis using Some True by (simp add: split_scheme_def)
  next
    case False
    then show ?thesis using Some by (auto simp: split_scheme_def)
  qed
qed

lemma after_hash_splitnetloc:
  "take 2 u = ''//'' \<Longrightarrow> after_hash (snd (splitnetloc u)) = after_hash u"
proof -
  assume t: "take 2 u = ''//''"
  then have u: "u = ''//'' @ drop 2 u" by (metis append_take_drop_id)
  have "after_hash (snd (splitnetloc u)) = after_hash (drop 2 u)"
    unfolding splitnetloc_def by (simp add: after_hash_dropWhile)
  also have "\<dots> = after_hash (''//'' @ drop 2 u)"
    by (subst after_hash_free_prefix) simp_all
  finally show ?thesis using u by simp
qed

lemma split_once_hash: "snd (split_once CHR ''#'' s) = after_hash s"
  by (simp add: split_once_def after_hash_def)

lemma after_hash_none: "CHR ''#'' \<notin> set s \<Longrightarrow> after_hash s = []"
  using after_hash_free_prefix [of s "[]"] by (simp add: after_hash_Nil)

lemma urlsplit_fragment:
  assumes "urllib_urlsplit env u = Inr sp"
  shows "s_fragment sp = fragment_of u"
proof -
  define u1 where "u1 = lstrip ctl_or_space u"
  define u2 where "u2 = filter (\<lambda>c. c \<notin> {CHR 0x09, CHR 0x0D, CHR 0x0A}) u1"
  define u3 where "u3 = snd (split_scheme u2)"
  define nl where "nl = (if take 2 u3 = ''//'' then splitnetloc u3 else ([], u3))"
  define fr where "fr = (if CHR ''#'' \<in> set (snd nl) then split_once CHR ''#'' (snd nl) else (snd nl, []))"
  have "s_fragment sp = snd fr"
    using assms unfolding urllib_urlsplit_def u1_def u2_def u3_def nl_def fr_def
    by (auto simp: Let_def case_prod_beta split: if_splits)
  also have "\<dots> = after_hash (snd nl)"
    by (simp add: fr_def split_once_hash after_hash_none)
  also have "\<dots> = after_hash u3"
    by (simp add: nl_def after_hash_splitnetloc)
  also have "\<dots> = after_hash u2"
    by (simp add: u3_def after_hash_split_scheme)
  also have "\<dots> = filter (\<lambda>c. c \<notin> {CHR 0x09, CHR 0x0D, CHR 0x0A}) (after_hash u1)"
    unfolding u2_def by (rule after_hash_filter) simp
  also have "after_hash u1 = after_hash u"
    unfolding u1_def lstrip_def by (rule after_hash_dropWhile) (simp add: ctl_or_space_def)
  finally show ?thesis by (simp add: fragment_of_def)
qed

lemma unreserved_safe_codes: "safe_codes unreserved \<and> ''25'' \<notin> unreserved"
  by (simp add: unreserved_eq safe_codes_def hex_upper_def)

lemma unreserved_literal:
  "q \<in> unreserved \<Longrightarrow>
     literal_of q \<notin> {CHR ''#'', CHR 0x09, CHR 0x0D, CHR 0x0A}"
  unfolding unreserved_eq list.set insert_iff empty_iff
  by (elim disjE FalseE; simp add: py_eval)

lemma hex_upper_plain: "c \<in> set hex_upper \<Longrightarrow> c \<notin> {CHR ''#'', CHR 0x09, CHR 0x0D, CHR 0x0A}"
  unfolding hex_upper_def list.set insert_iff empty_iff
  by (elim disjE FalseE; simp)

lemma scan_visible:
  "filter (\<lambda>c. c \<notin> {CHR 0x09, CHR 0x0D, CHR 0x0A})
     (unquote_scan (\<lambda>q. q \<in> valid_hex) unreserved prev s) = []
   \<longleftrightarrow> filter (\<lambda>c. c \<notin> {CHR 0x09, CHR 0x0D, CHR 0x0A}) s = []"
proof (induction s arbitrary: prev rule: length_induct)
  case (1 s)
  note IH = "1.IH" [rule_format]
  show ?case
  proof (cases s)
    case Nil
    then show ?thesis by simp
  next
    case (Cons c cs)
    have r: "filter (\<lambda>c. c \<notin> {CHR 0x09, CHR 0x0D, CHR 0x0A})
               (unquote_scan (\<lambda>q. q \<in> valid_hex) unreserved b cs) = []
             \<longleftrightarrow> filter (\<lambda>c. c \<notin> {CHR 0x09, CHR 0x0D, CHR 0x0A}) cs = []" for b
      using IH [of cs b] Cons by simp
    show ?thesis
    proof (cases "c = CHR ''%'' \<and> \<not> prev \<and> take 2 cs \<in> valid_hex")
      case True
      show ?thesis
      proof (cases "upper (take 2 cs) \<in> unreserved")
        case s: True
        from unreserved_literal [OF s] show ?thesis using True s Cons by simp
      next
        case s: False
        then show ?thesis using True Cons by simp
      qed
    next
      case False
      then have "unquote_scan (\<lambda>q. q \<in> valid_hex) unreserved prev (c # cs)
                 = c # unquote_scan (\<lambda>q. q \<in> valid_hex) unreserved (c = CHR ''%'') cs"
        by auto
      then show ?thesis using r Cons by simp
    qed
  qed
qed

lemma scan_after_hash:
  "fragment_of (unquote_scan (\<lambda>q. q \<in> valid_hex) unreserved prev s) = []
   \<longleftrightarrow> fragment_of s = []"
proof (induction s arbitrary: prev rule: length_induct)
  case (1 s)
  note IH = "1.IH" [rule_format]
  show ?case
  proof (cases s)
    case Nil
    then show ?thesis by simp
  next
    case (Cons c cs)
    show ?thesis
    proof (cases "c = CHR ''%'' \<and> \<not> prev \<and> take 2 cs \<in> valid_hex")
      case True
      then have v: "is_valid_hex (take 2 cs)" by (simp add: valid_hex_iff)
      from is_valid_hex_length [OF v] have len: "2 \<le> length cs" by auto
      have pair_free: "CHR ''#'' \<notin> set (take 2 cs)"
        using v by (auto simp: is_valid_hex_def hex_lower_def hex_upper_def split: list.splits)
      have "after_hash (take 2 cs @ drop 2 cs) = after_hash (drop 2 cs)"
        using pair_free by (rule after_hash_free_prefix)
      then have inp: "after_hash (c # cs) = after_hash (drop 2 cs)"
        using True by (simp add: after_hash_Cons)
      have rec: "fragment_of (unquote_scan (\<lambda>q. q \<in> valid_hex) unreserved False (drop 2 cs)) = []
                 \<longleftrightarrow> fragment_of (drop 2 cs) = []"
        using IH [of "drop 2 cs" False] Cons by simp
      have up: "CHR ''#'' \<notin> set (upper (take 2 cs))"
        using is_valid_hex_upper [OF v] hex_upper_plain by blast
      show ?thesis
      proof (cases "upper (take 2 cs) \<in> unreserved")
        case s: True
        from unreserved_literal [OF s] have "literal_of (upper (take 2 cs)) \<noteq> CHR ''#''" by simp
        then have "after_hash (unquote_scan (\<lambda>q. q \<in> valid_hex) unreserved prev (c # cs))
              = after_hash (unquote_scan (\<lambda>q. q \<in> valid_hex) unreserved False (drop 2 cs))"
          using True s by (simp add: after_hash_Cons)
        then show ?thesis using rec inp Cons by (simp add: fragment_of_def)
      next
        case s: False
        have "after_hash ((CHR ''%'' # upper (take 2 cs))
                 @ unquote_scan (\<lambda>q. q \<in> valid_hex) unreserved False (drop 2 cs))
              = after_hash (unquote_scan (\<lambda>q. q \<in> valid_hex) unreserved False (drop 2 cs))"
          using up by (intro after_hash_free_prefix) simp
        then have "after_hash (unquote_scan (\<lambda>q. q \<in> valid_hex) unreserved prev (c # cs))
              = after_hash (unquote_scan (\<lambda>q. q \<in> valid_hex) unreserved False (drop 2 cs))"
          using True s by simp
        then show ?thesis using rec inp Cons by (simp add: fragment_of_def)
      qed
    next
      case False
      then have step: "unquote_scan (\<lambda>q. q \<in> valid_hex) unreserved prev (c # cs)
                 = c # unquote_scan (\<lambda>q. q \<in> valid_hex) unreserved (c = CHR ''%'') cs"
        by auto
      show ?thesis
      proof (cases "c = CHR ''#''")
        case True
        then show ?thesis
          using step Cons scan_visible [of "c = CHR ''%''" cs]
          by (simp add: fragment_of_def after_hash_Cons)
      next
        case nh: False
        then show ?thesis
          using step Cons IH [of cs "c = CHR ''%''"]
          by (simp add: fragment_of_def after_hash_Cons)
      qed
    qed
  qed
qed

lemma unquote_unreserved_fragment:
  assumes "unquote r unreserved = Inr u"
  shows "fragment_of u = [] \<longleftrightarrow> fragment_of r = []"
proof -
  have "unquote r unreserved = Inr (unquote_scan (\<lambda>q. q \<in> valid_hex) unreserved False r)"
    using unquote_is_scan unreserved_safe_codes by blast
  with assms have "u = unquote_scan (\<lambda>q. q \<in> valid_hex) unreserved False r" by simp
  then show ?thesis using scan_after_hash by simp
qed

lemma safe_canon_fragment:
  assumes "safe_url_canonicalization env r = Inr (u', frag)"
  shows "\<exists>u sp. unquote r unreserved = Inr u \<and> urllib_urlsplit env u = Inr sp
           \<and> (s_fragment sp = [] \<longrightarrow> frag = [])
           \<and> (s_fragment sp \<noteq> [] \<longrightarrow>
                (\<exists>g. unquote (s_fragment sp) unquote_in_frag = Inr g \<and> frag = CHR ''#'' # g))"
proof -
  note defs = safe_url_canonicalization_def bindE_def Let_def
  obtain u where u: "unquote r unreserved = Inr u"
    using assms by (cases "unquote r unreserved") (auto simp: defs)
  obtain sp where sp: "urllib_urlsplit env u = Inr sp"
    using assms u by (cases "urllib_urlsplit env u") (auto simp: defs)
  have "(s_fragment sp = [] \<longrightarrow> frag = [])
        \<and> (s_fragment sp \<noteq> [] \<longrightarrow>
              (\<exists>g. unquote (s_fragment sp) unquote_in_frag = Inr g \<and> frag = CHR ''#'' # g))"
    using assms u sp by (auto simp: defs split: sum.splits if_splits)
  with u sp show ?thesis by blast
qed

lemma URL_resolved_plain: "URL_resolved env url0 NoBase False = Inr (clean_webpage_links url0)"
  by (simp add: URL_resolved_def bindE_def)

lemma URL_example_escaped_fragment:
  "original_frag_of (URL_init example_env ''http://example.com/#%41'' NoBase False)
   = Inr (Some ''#A'')"
  by code_simp

text \<open>
  C6, as the specification states it, fails on the code: the fragment that the
  constructor keeps is not the original one but the percent-normalized one.
\<close>

theorem original_frag_counterexample:
  "original_frag_of (URL_init example_env ''http://example.com/#%41'' NoBase False)
     = Inr (Some ''#A'')
   \<and> fragment_of ''http://example.com/#%41'' = ''%41''"
  using URL_example_escaped_fragment by (simp add: fragment_of_def after_hash_def)

text \<open>
  C6 (amended).  Let \<open>r\<close> be the link that reaches the canonicalizer: the input after
  seed handling, sanitizing and resolution against the base (without base and seed flag,
  the sanitized input).  For every successfully constructed URL object,
  \<^verbatim>\<open>original_frag\<close> is \<^verbatim>\<open>None\<close> if and only if the fragment of \<open>r\<close> is empty; otherwise
  it is \<^verbatim>\<open>#\<close> followed by the fragment of the percent-normalized link (\<^verbatim>\<open>unquote\<close> with
  the unreserved codes), decoded once more with the fragment safe-set.
\<close>

theorem original_frag_normalized:
  "(URL_init env url0 urljoin seed = Inr x \<longrightarrow>
      (\<exists>r u. URL_resolved env url0 urljoin seed = Inr r
         \<and> unquote r unreserved = Inr u
         \<and> (u_original_frag x = None \<longleftrightarrow> fragment_of r = [])
         \<and> (fragment_of r \<noteq> [] \<longrightarrow>
              (\<exists>g. unquote (fragment_of u) unquote_in_frag = Inr g
                 \<and> u_original_frag x = Some (CHR ''#'' # g)))))
   \<and> URL_resolved env url0 NoBase False = Inr (clean_webpage_links url0)"
proof (intro conjI impI)
  assume "URL_init env url0 urljoin seed = Inr x"
  then obtain r where r: "URL_resolved env url0 urljoin seed = Inr r"
    and b: "URL_build env r = Inr x" using URL_init_built by blast
  from URL_build_fields [OF b] obtain u' frag where
    c: "safe_url_canonicalization env r = Inr (u', frag)"
    and o: "u_original_frag x = (if frag = [] then None else Some frag)" by blast
  from safe_canon_fragment [OF c] obtain u sp where
    u: "unquote r unreserved = Inr u" and sp: "urllib_urlsplit env u = Inr sp"
    and e: "s_fragment sp = [] \<longrightarrow> frag = []"
    and n: "s_fragment sp \<noteq> [] \<longrightarrow>
              (\<exists>g. unquote (s_fragment sp) unquote_in_frag = Inr g \<and> frag = CHR ''#'' # g)"
    by blast
  have f: "s_fragment sp = fragment_of u" using sp by (rule urlsplit_fragment)
  have same: "fragment_of u = [] \<longleftrightarrow> fragment_of r = []"
    using u by (rule unquote_unreserved_fragment)
  have none: "u_original_frag x = None \<longleftrightarrow> fragment_of r = []"
    using o e n f same by auto
  have some: "fragment_of r \<noteq> [] \<longrightarrow>
      (\<exists>g. unquote (fragment_of u) unquote_in_frag = Inr g \<and> u_original_frag x = Some (CHR ''#'' # g))"
    using o n f same by auto
  show "\<exists>r u. URL_resolved env url0 urljoin seed = Inr r
         \<and> unquote r unreserved = Inr u
         \<and> (u_original_frag x = None \<longleftrightarrow> fragment_of r = [])
         \<and> (fragment_of r \<noteq> [] \<longrightarrow>
              (\<exists>g. unquote (fragment_of u) unquote_in_frag = Inr g
                 \<and> u_original_frag x = Some (CHR ''#'' # g)))"
    using r u none some by (intro exI [of _ r] exI [of _ u] conjI)
next
  show "URL_resolved env url0 NoBase False = Inr (clean_webpage_links url0)"
    by (rule URL_resolved_plain)
qed

lemma URL_example_fragment:
  "URL_init example_env ''http://example.com/a#x%3Ay'' NoBase False =
   Inr \<lparr>u_url = ''http://example.com/a'',
        u_urlsplit = \<lparr>s_scheme = ''http'', s_netloc = ''example.com'', s_path = ''/a'',
                       s_query = [], s_fragment = []\<rparr>,
        u_netloc = ''example.com'', u_hostname = ''example.com'',
        u_hostname_without_www = ''example.com'', u_surt = [],
        u_registered_domain = [], u_original_frag = Some ''#x:y''\<rparr>"
  by code_simp

lemma URL_example_fragment_steps:
  "clean_webpage_links ''http://example.com/a#x%3Ay'' = ''http://example.com/a#x%3Ay''
   \<and> unquote ''http://example.com/a#x%3Ay'' unreserved = Inr ''http://example.com/a#x%3Ay''
   \<and> fragment_of ''http://example.com/a#x%3Ay'' = ''x%3Ay''
   \<and> unquote ''x%3Ay'' unquote_in_frag = Inr ''x:y''"
  by code_simp

theorem original_frag_normalized_witness:
  "original_frag_of (URL_init example_env ''http://example.com/a#x%3Ay'' NoBase False)
     = Inr (Some ''#x:y'')
   \<and> fragment_of ''http://example.com/a#x%3Ay'' = ''x%3Ay''"
proof -
  let ?x = "\<lparr>u_url = ''http://example.com/a'',
        u_urlsplit = \<lparr>s_scheme = ''http'', s_netloc = ''example.com'', s_path = ''/a'',
                       s_query = [], s_fragment = []\<rparr>,
        u_netloc = ''example.com'', u_hostname = ''example.com'',
        u_hostname_without_www = ''example.com'', u_surt = [],
        u_registered_domain = [], u_original_frag = Some ''#x:y''\<rparr>"
  let ?l = "''http://example.com/a#x%3Ay''"
  have h: "URL_init example_env ?l NoBase False = Inr ?x" by (rule URL_example_fragment)
  from original_frag_normalized [of example_env ?l NoBase False ?x] h
  obtain r u where r: "URL_resolved example_env ?l NoBase False = Inr r"
    and u: "unquote r unreserved = Inr u"
    and s: "fragment_of r \<noteq> [] \<longrightarrow>
              (\<exists>g. unquote (fragment_of u) unquote_in_frag = Inr g
                 \<and> u_original_frag ?x = Some (CHR ''#'' # g))"
    by blast
  from r have r': "r = ?l"
    using URL_example_fragment_steps by (simp add: URL_resolved_plain)
  with u have u': "u = ?l" using URL_example_fragment_steps by simp
  from s r' u' have "u_original_frag ?x = Some ''#x:y''"
    using URL_example_fragment_steps by simp
  then show ?thesis
    using h URL_example_fragment_steps by (simp add: original_frag_of_def bindE_def)
qed

end
